theory Spec2Isabelle
  imports Main "HOL-Library.Multiset"
begin

section \<open>The poker engine: a max-heap of players with a position map\<close>

text \<open>
  The source is one Python file, \<^verbatim>\<open>pokersim.py\<close>. Class \<^verbatim>\<open>PokerGameEngine\<close> keeps a
  list \<^verbatim>\<open>heap\<close> of references to \<^verbatim>\<open>Player\<close> objects and a dict \<^verbatim>\<open>position_map\<close> from
  player ids to list indices. Players are mutable objects that the list only refers to, and
  \<^verbatim>\<open>update_hand_strength\<close> writes a field of such an object, so the model keeps the objects
  in an explicit store: the list holds references, and every read of a field goes through
  the store. Ids and scores are integers, as in the driver of the source. Every function
  returns either the new state or the exception that the Python would raise.
\<close>

subsection \<open>Data\<close>

datatype py_error = IndexError | KeyError

record Player =
  player_id :: int
  name :: string
  hand_score :: int
  cards :: "string list"

type_synonym ref = nat

text \<open>
  \<open>objs\<close> is the object memory (which \<^verbatim>\<open>Player\<close> a reference denotes); \<open>heap\<close> and
  \<open>position_map\<close> are the two fields of \<^verbatim>\<open>PokerGameEngine\<close>. Indices are natural numbers:
  every index the code computes is a list length minus one after an append, a value read
  from the position map, or a parent or child of such an index, and \<^verbatim>\<open>_parent\<close> is only
  evaluated at a positive index.
\<close>

record engine =
  objs :: "ref \<Rightarrow> Player"
  heap :: "ref list"
  position_map :: "int \<rightharpoonup> nat"

definition init :: "(ref \<Rightarrow> Player) \<Rightarrow> engine" where
  "init ob = \<lparr>objs = ob, heap = [], position_map = Map.empty\<rparr>"

definition parent :: "nat \<Rightarrow> nat" where
  "parent i = (i - 1) div 2"

definition left :: "nat \<Rightarrow> nat" where
  "left i = 2 * i + 1"

definition right :: "nat \<Rightarrow> nat" where
  "right i = 2 * i + 2"

text \<open>\<^verbatim>\<open>self.heap[i].hand_score\<close> and \<^verbatim>\<open>self.heap[i].player_id\<close>, for an index in range.\<close>

definition score :: "engine \<Rightarrow> nat \<Rightarrow> int" where
  "score s i = hand_score (objs s (heap s ! i))"

definition pid_at :: "engine \<Rightarrow> nat \<Rightarrow> int" where
  "pid_at s i = player_id (objs s (heap s ! i))"

subsection \<open>Internal primitives\<close>

text \<open>
  \<^verbatim>\<open>_swap\<close>: the tuple assignment reads both slots first (an index out of range raises
  \<^verbatim>\<open>IndexError\<close>), writes them exchanged, then records the new slot of each of the two
  players, the one now at \<open>i\<close> first, the one now at \<open>j\<close> second.
\<close>

definition swap :: "engine \<Rightarrow> nat \<Rightarrow> nat \<Rightarrow> py_error + engine" where
  "swap s i j =
     (if i < length (heap s) \<and> j < length (heap s) then
        let h = (heap s)[i := heap s ! j, j := heap s ! i];
            p1 = h ! i;
            p2 = h ! j;
            m1 = (position_map s)(player_id (objs s p1) \<mapsto> i);
            m2 = m1(player_id (objs s p2) \<mapsto> j)
        in Inr (s\<lparr>heap := h, position_map := m2\<rparr>)
      else Inl IndexError)"

text \<open>
  \<^verbatim>\<open>_sift_up\<close>: the loop \<^verbatim>\<open>while i > 0 and heap[i].hand_score > heap[parent(i)].hand_score\<close>.
  The conjunction short-circuits, so the list is read only at a positive \<open>i\<close>, and that
  read raises when \<open>i\<close> is not a slot.
\<close>

function sift_up :: "engine \<Rightarrow> nat \<Rightarrow> py_error + engine" where
  "sift_up s i =
     (if 0 < i then
        (if i < length (heap s) then
           (if score s i > score s (parent i) then
              (case swap s i (parent i) of
                 Inl e \<Rightarrow> Inl e
               | Inr s' \<Rightarrow> sift_up s' (parent i))
            else Inr s)
         else Inl IndexError)
      else Inr s)"
  by pat_completeness auto
termination
  by (relation "measure (\<lambda>(s, i). i)") (auto simp: parent_def)

declare sift_up.simps [simp del]

text \<open>
  Lines 47 to 54 of \<^verbatim>\<open>_sift_down\<close>: the index of the largest of slot \<open>i\<close> and its
  children in range, the left child winning a tie between the children. Each comparison
  is guarded by the bound check before it, so no read is out of range.
\<close>

definition max_idx :: "engine \<Rightarrow> nat \<Rightarrow> nat" where
  "max_idx s i =
     (let l = left i; r = right i; size = length (heap s);
          m = (if l < size \<and> score s l > score s i then l else i);
          m = (if r < size \<and> score s r > score s m then r else m)
      in m)"

function sift_down :: "engine \<Rightarrow> nat \<Rightarrow> py_error + engine" where
  "sift_down s i =
     (if i \<noteq> max_idx s i then
        (case swap s i (max_idx s i) of
           Inl e \<Rightarrow> Inl e
         | Inr s' \<Rightarrow> sift_down s' (max_idx s i))
      else Inr s)"
  by pat_completeness auto
termination
proof (relation "measure (\<lambda>(s, i). length (heap s) - i)")
  show "wf (measure (\<lambda>(s, i). length (heap s) - i))"
    by simp
next
  fix s :: engine and i :: nat and s' :: engine
  assume ne: "i \<noteq> max_idx s i" and sw: "swap s i (max_idx s i) = Inr s'"
  from sw have len: "length (heap s') = length (heap s)"
    by (auto simp: swap_def Let_def split: if_splits)
  have "max_idx s i = i \<or>
        (max_idx s i = left i \<and> left i < length (heap s)) \<or>
        (max_idx s i = right i \<and> right i < length (heap s))"
    by (simp add: max_idx_def Let_def)
  with ne have "i < max_idx s i" and "max_idx s i < length (heap s)"
    by (auto simp: left_def right_def)
  then have "length (heap s) - max_idx s i < length (heap s) - i"
    by arith
  with len show "((s', max_idx s i), (s, i)) \<in> measure (\<lambda>(s, i). length (heap s) - i)"
    by simp
qed

declare sift_down.simps [simp del]

subsection \<open>Public interface\<close>

definition add_player :: "engine \<Rightarrow> ref \<Rightarrow> py_error + engine" where
  "add_player s player =
     (let h = heap s @ [player];
          index = length h - 1;
          s1 = s\<lparr>heap := h,
                 position_map := (position_map s)(player_id (objs s player) \<mapsto> index)\<rparr>
      in sift_up s1 index)"

definition get_winner :: "engine \<Rightarrow> ref option" where
  "get_winner s = (if heap s \<noteq> [] then Some (heap s ! 0) else None)"

text \<open>
  \<^verbatim>\<open>fold_player\<close>: an id that is not a key returns at once. Otherwise the \<^verbatim>\<open>print\<close> reads
  \<^verbatim>\<open>self.heap[index].name\<close>, which raises when the index is not a slot; \<^verbatim>\<open>del\<close> raises
  \<^verbatim>\<open>KeyError\<close> on a missing key.
\<close>

definition fold_player :: "engine \<Rightarrow> int \<Rightarrow> py_error + engine" where
  "fold_player s pid =
     (case position_map s pid of
        None \<Rightarrow> Inr s
      | Some index \<Rightarrow>
          let last_idx = length (heap s) - 1 in
          if index < length (heap s) then
            (case swap s index last_idx of
               Inl e \<Rightarrow> Inl e
             | Inr s1 \<Rightarrow>
                 (case position_map s1 pid of
                    None \<Rightarrow> Inl KeyError
                  | Some _ \<Rightarrow>
                      let s2 = s1\<lparr>heap := butlast (heap s1),
                                  position_map := (position_map s1)(pid := None)\<rparr>
                      in if index < length (heap s2) then
                           (case sift_up s2 index of
                              Inl e \<Rightarrow> Inl e
                            | Inr s3 \<Rightarrow> sift_down s3 index)
                         else Inr s2))
          else Inl IndexError)"

text \<open>
  \<^verbatim>\<open>update_hand_strength\<close>: the assignment \<^verbatim>\<open>self.heap[index].hand_score = new_score\<close>
  writes the object, so every slot that refers to the same object sees the new score.
\<close>

definition update_hand_strength :: "engine \<Rightarrow> int \<Rightarrow> int \<Rightarrow> py_error + engine" where
  "update_hand_strength s pid new_score =
     (case position_map s pid of
        None \<Rightarrow> Inr s
      | Some index \<Rightarrow>
          if index < length (heap s) then
            let p = heap s ! index;
                old_score = hand_score (objs s p);
                s1 = s\<lparr>objs := (objs s)(p := (objs s p)\<lparr>hand_score := new_score\<rparr>)\<rparr>
            in if new_score > old_score then sift_up s1 index else sift_down s1 index
          else Inl IndexError)"

subsection \<open>Sequences of public operations\<close>

datatype op = Add ref | Fold int | Update int int | GetWinner

fun exec :: "engine \<Rightarrow> op \<Rightarrow> py_error + engine" where
  "exec s (Add p) = add_player s p"
| "exec s (Fold k) = fold_player s k"
| "exec s (Update k v) = update_hand_strength s k v"
| "exec s GetWinner = Inr s"

text \<open>The result of every call of a sequence, in order; the sequence stops at a raise.\<close>

fun results :: "engine \<Rightarrow> op list \<Rightarrow> (py_error + engine) list" where
  "results s [] = []"
| "results s (x # xs) =
     (case exec s x of
        Inl e \<Rightarrow> [Inl e]
      | Inr s' \<Rightarrow> Inr s' # results s' xs)"

fun run :: "engine \<Rightarrow> op list \<Rightarrow> py_error + engine" where
  "run s [] = Inr s"
| "run s (x # xs) =
     (case exec s x of
        Inl e \<Rightarrow> Inl e
      | Inr s' \<Rightarrow> run s' xs)"

subsection \<open>The invariants of the data model\<close>

text \<open>The max-heap order: no slot outranks its parent.\<close>

definition heap_inv :: "engine \<Rightarrow> bool" where
  "heap_inv s \<longleftrightarrow> (\<forall>i < length (heap s). 0 < i \<longrightarrow> score s i \<le> score s (parent i))"

text \<open>Every key of the position map points to a slot, and that slot holds a player with that id.\<close>

definition map_ok :: "engine \<Rightarrow> bool" where
  "map_ok s \<longleftrightarrow>
     (\<forall>k i. position_map s k = Some i \<longrightarrow> i < length (heap s) \<and> pid_at s i = k)"

text \<open>
  The bijection between slots and keys: the map sends the id stored in each slot to
  that slot, its keys are exactly the stored ids, and no id is stored twice.
\<close>

definition bijection_inv :: "engine \<Rightarrow> bool" where
  "bijection_inv s \<longleftrightarrow>
     (\<forall>i < length (heap s). position_map s (pid_at s i) = Some i) \<and>
     dom (position_map s) = set (map (\<lambda>p. player_id (objs s p)) (heap s)) \<and>
     distinct (map (\<lambda>p. player_id (objs s p)) (heap s))"

text \<open>Each slot is found through the id it stores.\<close>

definition slots_ok :: "engine \<Rightarrow> bool" where
  "slots_ok s \<longleftrightarrow> (\<forall>i < length (heap s). position_map s (pid_at s i) = Some i)"

subsection \<open>The states inside an operation\<close>

text \<open>Lines 64 to 66 of \<^verbatim>\<open>add_player\<close>: the state before the sift.\<close>

definition appended :: "engine \<Rightarrow> ref \<Rightarrow> engine" where
  "appended s player =
     s\<lparr>heap := heap s @ [player],
       position_map := (position_map s)(player_id (objs s player) \<mapsto> length (heap s))\<rparr>"

text \<open>
  Lines 90 and 91 of \<^verbatim>\<open>fold_player\<close>, applied to the state after the swap: the last slot is
  popped and the key deleted.
\<close>

definition popped :: "engine \<Rightarrow> int \<Rightarrow> engine" where
  "popped s1 pid = s1\<lparr>heap := butlast (heap s1), position_map := (position_map s1)(pid := None)\<rparr>"

text \<open>Line 109 of \<^verbatim>\<open>update_hand_strength\<close>: the object in slot \<open>index\<close> gets its new score.\<close>

definition rescored :: "engine \<Rightarrow> nat \<Rightarrow> int \<Rightarrow> engine" where
  "rescored s index new_score =
     s\<lparr>objs := (objs s)(heap s ! index := (objs s (heap s ! index))\<lparr>hand_score := new_score\<rparr>)\<rparr>"

text \<open>
  The order with one slot excepted. In \<open>up_inv s i\<close> slot \<open>i\<close> may outrank its parent, and
  the children of \<open>i\<close> are bounded by the parent of \<open>i\<close>; in \<open>down_inv s i\<close> the children
  of \<open>i\<close> may outrank \<open>i\<close>, and are bounded by the parent of \<open>i\<close> as well.
\<close>

definition up_inv :: "engine \<Rightarrow> nat \<Rightarrow> bool" where
  "up_inv s i \<longleftrightarrow>
     (\<forall>j < length (heap s). 0 < j \<longrightarrow> j \<noteq> i \<longrightarrow> score s j \<le> score s (parent j)) \<and>
     (\<forall>j < length (heap s). 0 < j \<longrightarrow> parent j = i \<longrightarrow> 0 < i \<longrightarrow> score s j \<le> score s (parent i))"

definition down_inv :: "engine \<Rightarrow> nat \<Rightarrow> bool" where
  "down_inv s i \<longleftrightarrow>
     (\<forall>j < length (heap s). 0 < j \<longrightarrow> parent j \<noteq> i \<longrightarrow> score s j \<le> score s (parent j)) \<and>
     (\<forall>j < length (heap s). 0 < j \<longrightarrow> parent j = i \<longrightarrow> 0 < i \<longrightarrow> score s j \<le> score s (parent i))"

subsection \<open>Conditions on a sequence of calls\<close>

text \<open>
  Two conditions on a sequence of calls, checked along its run from a state: every
  \<^verbatim>\<open>add_player\<close> is given an object that the heap array does not already refer to; every
  \<^verbatim>\<open>add_player\<close> is given a player whose id is not a key of the position map.
\<close>

fun adds_new_objects :: "engine \<Rightarrow> op list \<Rightarrow> bool" where
  "adds_new_objects s [] = True"
| "adds_new_objects s (x # xs) =
     ((case x of Add p \<Rightarrow> p \<notin> set (heap s) | _ \<Rightarrow> True) \<and>
      (case exec s x of Inl e \<Rightarrow> True | Inr s' \<Rightarrow> adds_new_objects s' xs))"

fun adds_new_ids :: "engine \<Rightarrow> op list \<Rightarrow> bool" where
  "adds_new_ids s [] = True"
| "adds_new_ids s (x # xs) =
     ((case x of Add p \<Rightarrow> position_map s (player_id (objs s p)) = None | _ \<Rightarrow> True) \<and>
      (case exec s x of Inl e \<Rightarrow> True | Inr s' \<Rightarrow> adds_new_ids s' xs))"

subsection \<open>Two procedures of the specification\<close>

text \<open>
  The alternative that section 4.1 of the specification allows for \<open>updatePriority\<close>. It
  is not in the source: after the lookup and the overwrite, which it shares with
  \<^verbatim>\<open>update_hand_strength\<close>, it follows the specification's words, "run sift-up then
  sift-down unconditionally".
\<close>

definition update_unconditional :: "engine \<Rightarrow> int \<Rightarrow> int \<Rightarrow> py_error + engine" where
  "update_unconditional s pid new_score =
     (case position_map s pid of
        None \<Rightarrow> Inr s
      | Some index \<Rightarrow>
          if index < length (heap s) then
            (case sift_up (rescored s index new_score) index of
               Inl e \<Rightarrow> Inl e
             | Inr s2 \<Rightarrow> sift_down s2 index)
          else Inl IndexError)"

text \<open>
  A run in which every update uses the unconditional alternative; the other operations
  are those of the source.
\<close>

fun exec_unconditional :: "engine \<Rightarrow> op \<Rightarrow> py_error + engine" where
  "exec_unconditional s (Add p) = add_player s p"
| "exec_unconditional s (Fold k) = fold_player s k"
| "exec_unconditional s (Update k v) = update_unconditional s k v"
| "exec_unconditional s GetWinner = Inr s"

fun run_unconditional :: "engine \<Rightarrow> op list \<Rightarrow> py_error + engine" where
  "run_unconditional s [] = Inr s"
| "run_unconditional s (x # xs) =
     (case exec_unconditional s x of
        Inl e \<Rightarrow> Inl e
      | Inr s' \<Rightarrow> run_unconditional s' xs)"

text \<open>
  The round trip of the specification's testable properties: read the winner, fold the
  winner's id, and repeat, at most \<open>n\<close> times, collecting the winners in order. The loop
  stops early when \<^verbatim>\<open>get_winner\<close> returns \<^verbatim>\<open>None\<close>.
\<close>

fun drain :: "nat \<Rightarrow> engine \<Rightarrow> py_error + (ref list \<times> engine)" where
  "drain 0 s = Inr ([], s)"
| "drain (Suc n) s =
     (case get_winner s of
        None \<Rightarrow> Inr ([], s)
      | Some w \<Rightarrow>
          (case fold_player s (player_id (objs s w)) of
             Inl e \<Rightarrow> Inl e
           | Inr s' \<Rightarrow>
               (case drain n s' of
                  Inl e \<Rightarrow> Inl e
                | Inr (out, s'') \<Rightarrow> Inr (w # out, s''))))"

subsection \<open>The loops as partial functions\<close>

text \<open>
  The two loops once more, as partial functions: the same equations, with \<open>None\<close> standing
  for a run that never returns. Nothing is assumed about termination here; that these
  functions always return is a theorem.
\<close>

partial_function (option) sift_up_loop :: "engine \<Rightarrow> nat \<Rightarrow> (py_error + engine) option" where
  "sift_up_loop s i =
     (if 0 < i then
        (if i < length (heap s) then
           (if score s i > score s (parent i) then
              (case swap s i (parent i) of
                 Inl e \<Rightarrow> Some (Inl e)
               | Inr s' \<Rightarrow> sift_up_loop s' (parent i))
            else Some (Inr s))
         else Some (Inl IndexError))
      else Some (Inr s))"

partial_function (option) sift_down_rec :: "engine \<Rightarrow> nat \<Rightarrow> (py_error + engine) option" where
  "sift_down_rec s i =
     (if i \<noteq> max_idx s i then
        (case swap s i (max_idx s i) of
           Inl e \<Rightarrow> Some (Inl e)
         | Inr s' \<Rightarrow> sift_down_rec s' (max_idx s i))
      else Some (Inr s))"

text \<open>The public operations over the partial loops: \<open>None\<close> when a loop does not return.\<close>

definition add_player_run :: "engine \<Rightarrow> ref \<Rightarrow> (py_error + engine) option" where
  "add_player_run s player =
     (let h = heap s @ [player];
          index = length h - 1;
          s1 = s\<lparr>heap := h,
                 position_map := (position_map s)(player_id (objs s player) \<mapsto> index)\<rparr>
      in sift_up_loop s1 index)"

definition fold_player_run :: "engine \<Rightarrow> int \<Rightarrow> (py_error + engine) option" where
  "fold_player_run s pid =
     (case position_map s pid of
        None \<Rightarrow> Some (Inr s)
      | Some index \<Rightarrow>
          let last_idx = length (heap s) - 1 in
          if index < length (heap s) then
            (case swap s index last_idx of
               Inl e \<Rightarrow> Some (Inl e)
             | Inr s1 \<Rightarrow>
                 (case position_map s1 pid of
                    None \<Rightarrow> Some (Inl KeyError)
                  | Some _ \<Rightarrow>
                      let s2 = s1\<lparr>heap := butlast (heap s1),
                                  position_map := (position_map s1)(pid := None)\<rparr>
                      in if index < length (heap s2) then
                           (case sift_up_loop s2 index of
                              None \<Rightarrow> None
                            | Some (Inl e) \<Rightarrow> Some (Inl e)
                            | Some (Inr s3) \<Rightarrow> sift_down_rec s3 index)
                         else Some (Inr s2)))
          else Some (Inl IndexError))"

definition update_hand_strength_run :: "engine \<Rightarrow> int \<Rightarrow> int \<Rightarrow> (py_error + engine) option" where
  "update_hand_strength_run s pid new_score =
     (case position_map s pid of
        None \<Rightarrow> Some (Inr s)
      | Some index \<Rightarrow>
          if index < length (heap s) then
            let p = heap s ! index;
                old_score = hand_score (objs s p);
                s1 = s\<lparr>objs := (objs s)(p := (objs s p)\<lparr>hand_score := new_score\<rparr>)\<rparr>
            in if new_score > old_score then sift_up_loop s1 index else sift_down_rec s1 index
          else Some (Inl IndexError))"

subsection \<open>Concrete players and states for the examples\<close>

definition P :: "int \<Rightarrow> int \<Rightarrow> Player" where
  "P k v = \<lparr>player_id = k, name = [], hand_score = v, cards = []\<rparr>"

text \<open>An object memory holding the listed players at the references 0, 1, 2 and so on.\<close>

definition mem :: "Player list \<Rightarrow> ref \<Rightarrow> Player" where
  "mem ps r = (if r < length ps then ps ! r else P 0 0)"

text \<open>
  A structure holding one player with id 1 and score 3 (object 1); object 0 is a second
  player with the same id and the higher score 5, not yet added.
\<close>

definition same_id_state :: engine where
  "same_id_state = \<lparr>objs = mem [P 1 5, P 1 3], heap = [1], position_map = [1 \<mapsto> 0]\<rparr>"

text \<open>A heap with scores 5, 3, 4 in slots 0, 1, 2, held by the players with ids 1, 2, 3.\<close>

definition three_state :: engine where
  "three_state = \<lparr>objs = mem [P 1 5, P 2 3, P 3 4], heap = [0, 1, 2],
                   position_map = [1 \<mapsto> 0, 2 \<mapsto> 1, 3 \<mapsto> 2]\<rparr>"

section \<open>Basic facts\<close>

lemma parent_less: "0 < i \<Longrightarrow> parent i < i"
  by (simp add: parent_def)

lemma parent_left [simp]: "parent (left i) = i"
  by (simp add: parent_def left_def)

lemma parent_right [simp]: "parent (right i) = i"
  by (simp add: parent_def right_def)

lemma parent_eq_iff: "0 < j \<Longrightarrow> parent j = i \<longleftrightarrow> j = left i \<or> j = right i"
  by (auto simp: parent_def left_def right_def)

lemma left_gt: "i < left i" and right_gt: "i < right i"
  by (simp_all add: left_def right_def)

lemma swap_Inr_iff:
  "swap s i j = Inr s' \<longleftrightarrow>
     i < length (heap s) \<and> j < length (heap s) \<and>
     s' = s\<lparr>heap := (heap s)[i := heap s ! j, j := heap s ! i],
            position_map := (position_map s)(pid_at s j \<mapsto> i, pid_at s i \<mapsto> j)\<rparr>"
  by (cases "i = j") (auto simp: swap_def Let_def pid_at_def)

lemma swap_in_range:
  "i < length (heap s) \<Longrightarrow> j < length (heap s) \<Longrightarrow> \<exists>s'. swap s i j = Inr s'"
  by (simp add: swap_Inr_iff)

lemma swap_objs: "swap s i j = Inr s' \<Longrightarrow> objs s' = objs s"
  by (auto simp: swap_Inr_iff)

lemma swap_length: "swap s i j = Inr s' \<Longrightarrow> length (heap s') = length (heap s)"
  by (auto simp: swap_Inr_iff)

lemma swap_nth:
  "swap s i j = Inr s' \<Longrightarrow>
     heap s' ! k = (if k = i then heap s ! j else if k = j then heap s ! i else heap s ! k)"
  by (auto simp: swap_Inr_iff)

lemma swap_score:
  "swap s i j = Inr s' \<Longrightarrow>
     score s' k = (if k = i then score s j else if k = j then score s i else score s k)"
  by (simp add: score_def swap_nth swap_objs)

lemma swap_pid_at:
  "swap s i j = Inr s' \<Longrightarrow>
     pid_at s' k = (if k = i then pid_at s j else if k = j then pid_at s i else pid_at s k)"
  by (simp add: pid_at_def swap_nth swap_objs)

lemma swap_position_map:
  "swap s i j = Inr s' \<Longrightarrow>
     position_map s' = (position_map s)(pid_at s j \<mapsto> i, pid_at s i \<mapsto> j)"
  by (auto simp: swap_Inr_iff)

lemma swap_mset: "swap s i j = Inr s' \<Longrightarrow> mset (heap s') = mset (heap s)"
  by (auto simp: swap_Inr_iff mset_swap)

lemma sift_up_returns: "i < length (heap s) \<Longrightarrow> \<exists>s'. sift_up s i = Inr s'"
proof (induction s i rule: sift_up.induct)
  case (1 s i)
  show ?case
  proof (cases "0 < i \<and> score s (parent i) < score s i")
    case True
    with "1.prems" have p: "parent i < length (heap s)"
      using parent_less [of i] by simp
    with "1.prems" obtain s1 where s1: "swap s i (parent i) = Inr s1"
      using swap_in_range by blast
    with p have "parent i < length (heap s1)"
      by (simp add: swap_length)
    with "1.IH" [of s1] True "1.prems" s1 obtain s' where "sift_up s1 (parent i) = Inr s'"
      by auto
    with True "1.prems" s1 show ?thesis
      by (subst sift_up.simps) simp
  next
    case False
    with "1.prems" show ?thesis
      by (subst sift_up.simps) auto
  qed
qed

section \<open>What the two sifts preserve\<close>

lemma sift_up_pres:
  assumes step: "\<And>s i j s'. Q s \<Longrightarrow> swap s i j = Inr s' \<Longrightarrow> Q s'"
  shows "sift_up s i = Inr s' \<Longrightarrow> Q s \<Longrightarrow> Q s'"
proof (induction s i rule: sift_up.induct)
  case (1 s i)
  show ?case
  proof (cases "0 < i \<and> i < length (heap s) \<and> score s (parent i) < score s i")
    case True
    with "1.prems"(1) obtain s1 where s1: "swap s i (parent i) = Inr s1"
      and rest: "sift_up s1 (parent i) = Inr s'"
      by (subst (asm) sift_up.simps) (auto split: sum.splits)
    from step [OF "1.prems"(2) s1] have "Q s1" .
    with "1.IH" [of s1] True s1 rest show ?thesis
      by simp
  next
    case False
    with "1.prems" show ?thesis
      by (subst (asm) sift_up.simps) (auto split: if_splits)
  qed
qed

lemma sift_down_pres:
  assumes step: "\<And>s i j s'. Q s \<Longrightarrow> swap s i j = Inr s' \<Longrightarrow> Q s'"
  shows "sift_down s i = Inr s' \<Longrightarrow> Q s \<Longrightarrow> Q s'"
proof (induction s i rule: sift_down.induct)
  case (1 s i)
  show ?case
  proof (cases "i = max_idx s i")
    case True
    with "1.prems" show ?thesis
      by (subst (asm) sift_down.simps) simp
  next
    case False
    with "1.prems"(1) obtain s1 where s1: "swap s i (max_idx s i) = Inr s1"
      and rest: "sift_down s1 (max_idx s i) = Inr s'"
      by (subst (asm) sift_down.simps) (auto split: sum.splits)
    from step [OF "1.prems"(2) s1] have "Q s1" .
    with "1.IH" [of s1] False s1 rest show ?thesis
      by simp
  qed
qed

lemma max_idx_cases:
  "max_idx s i = i \<or>
   (max_idx s i = left i \<and> left i < length (heap s)) \<or>
   (max_idx s i = right i \<and> right i < length (heap s))"
  by (simp add: max_idx_def Let_def)

lemma max_idx_bound: "max_idx s i \<noteq> i \<Longrightarrow> i < max_idx s i \<and> max_idx s i < length (heap s)"
  using max_idx_cases [of s i] by (auto simp: left_def right_def)

lemma sift_down_returns: "\<exists>s'. sift_down s i = Inr s'"
proof (induction s i rule: sift_down.induct)
  case (1 s i)
  show ?case
  proof (cases "i = max_idx s i")
    case True
    then show ?thesis
      by (subst sift_down.simps) simp
  next
    case False
    then have "i < length (heap s)" "max_idx s i < length (heap s)"
      using max_idx_bound [of s i] by auto
    then obtain s1 where s1: "swap s i (max_idx s i) = Inr s1"
      using swap_in_range by blast
    with "1.IH" [of s1] False obtain s' where "sift_down s1 (max_idx s i) = Inr s'"
      by auto
    with False s1 show ?thesis
      by (subst sift_down.simps) simp
  qed
qed

lemma swap_map_ok: "map_ok s \<Longrightarrow> swap s i j = Inr s' \<Longrightarrow> map_ok s'"
  unfolding map_ok_def
proof (intro allI impI)
  fix k n
  assume ok: "\<forall>k i. position_map s k = Some i \<longrightarrow> i < length (heap s) \<and> pid_at s i = k"
    and sw: "swap s i j = Inr s'" and look: "position_map s' k = Some n"
  from sw have ij: "i < length (heap s)" "j < length (heap s)"
    by (auto simp: swap_Inr_iff)
  from look have cases: "(k = pid_at s i \<and> n = j) \<or>
      (k \<noteq> pid_at s i \<and> k = pid_at s j \<and> n = i) \<or>
      (k \<noteq> pid_at s i \<and> k \<noteq> pid_at s j \<and> position_map s k = Some n)"
    by (auto simp: swap_position_map [OF sw] split: if_splits)
  then show "n < length (heap s') \<and> pid_at s' n = k"
  proof (elim disjE conjE)
    assume "k = pid_at s i" "n = j"
    with ij show ?thesis
      by (simp add: swap_length [OF sw] swap_pid_at [OF sw])
  next
    assume "k \<noteq> pid_at s i" "k = pid_at s j" "n = i"
    with ij show ?thesis
      by (simp add: swap_length [OF sw] swap_pid_at [OF sw])
  next
    assume a: "k \<noteq> pid_at s i" "k \<noteq> pid_at s j" "position_map s k = Some n"
    with ok have n: "n < length (heap s)" "pid_at s n = k"
      by auto
    with a have "n \<noteq> i" "n \<noteq> j"
      by auto
    with n show ?thesis
      by (simp add: swap_length [OF sw] swap_pid_at [OF sw])
  qed
qed

lemma slots_ok_inj:
  "slots_ok s \<Longrightarrow> i < length (heap s) \<Longrightarrow> j < length (heap s) \<Longrightarrow>
     pid_at s i = pid_at s j \<Longrightarrow> i = j"
  by (metis option.inject slots_ok_def)

lemma swap_slots_ok: "slots_ok s \<Longrightarrow> swap s i j = Inr s' \<Longrightarrow> slots_ok s'"
  unfolding slots_ok_def [of s']
proof (intro allI impI)
  fix k
  assume ok: "slots_ok s" and sw: "swap s i j = Inr s'" and "k < length (heap s')"
  then have k: "k < length (heap s)"
    by (simp add: swap_length)
  from sw have ij: "i < length (heap s)" "j < length (heap s)"
    by (auto simp: swap_Inr_iff)
  consider "k = j" | "k = i" "k \<noteq> j" | "k \<noteq> i" "k \<noteq> j"
    by blast
  then show "position_map s' (pid_at s' k) = Some k"
  proof cases
    case 1
    then show ?thesis
      by (simp add: swap_position_map [OF sw] swap_pid_at [OF sw])
  next
    case 2
    with slots_ok_inj [OF ok ij] have "pid_at s j \<noteq> pid_at s i"
      by auto
    with 2 show ?thesis
      by (simp add: swap_position_map [OF sw] swap_pid_at [OF sw])
  next
    case 3
    with slots_ok_inj [OF ok k ij(1)] slots_ok_inj [OF ok k ij(2)]
    have "pid_at s k \<noteq> pid_at s i" "pid_at s k \<noteq> pid_at s j"
      by auto
    with 3 k ok show ?thesis
      by (simp add: swap_position_map [OF sw] swap_pid_at [OF sw] slots_ok_def)
  qed
qed

lemma bijection_map_ok: "bijection_inv s \<Longrightarrow> map_ok s"
  unfolding map_ok_def
proof (intro allI impI)
  fix k i
  assume b: "bijection_inv s" and look: "position_map s k = Some i"
  then have "k \<in> dom (position_map s)"
    by blast
  with b have "k \<in> set (map (\<lambda>p. player_id (objs s p)) (heap s))"
    unfolding bijection_inv_def by blast
  then obtain j where j: "j < length (heap s)" "pid_at s j = k"
    unfolding pid_at_def in_set_conv_nth by auto
  with b have "position_map s k = Some j"
    unfolding bijection_inv_def by blast
  with look j show "i < length (heap s) \<and> pid_at s i = k"
    by simp
qed

lemma bijection_slots_ok: "bijection_inv s \<Longrightarrow> slots_ok s"
  unfolding bijection_inv_def slots_ok_def by blast

lemma bijectionI:
  assumes m: "map_ok s" and sl: "slots_ok s"
  shows "bijection_inv s"
proof -
  have d: "dom (position_map s) = set (map (\<lambda>p. player_id (objs s p)) (heap s))"
  proof (intro set_eqI iffI)
    fix k assume "k \<in> dom (position_map s)"
    then obtain i where "position_map s k = Some i"
      by blast
    with m have "i < length (heap s)" "pid_at s i = k"
      unfolding map_ok_def by blast+
    then have "i < length (heap s)" "k = player_id (objs s (heap s ! i))"
      unfolding pid_at_def by simp_all
    then show "k \<in> set (map (\<lambda>p. player_id (objs s p)) (heap s))"
      by simp
  next
    fix k assume "k \<in> set (map (\<lambda>p. player_id (objs s p)) (heap s))"
    then obtain j where j: "j < length (heap s)" "pid_at s j = k"
      unfolding pid_at_def in_set_conv_nth by auto
    with sl have "position_map s k = Some j"
      unfolding slots_ok_def by blast
    then show "k \<in> dom (position_map s)"
      by blast
  qed
  have "distinct (map (\<lambda>p. player_id (objs s p)) (heap s))"
    unfolding distinct_conv_nth
  proof (intro allI impI)
    fix i j
    assume "i < length (map (\<lambda>p. player_id (objs s p)) (heap s))"
      "j < length (map (\<lambda>p. player_id (objs s p)) (heap s))" "i \<noteq> j"
    then have ij: "i < length (heap s)" "j < length (heap s)" "i \<noteq> j"
      by simp_all
    with slots_ok_inj [OF sl, of i j] have "pid_at s i \<noteq> pid_at s j"
      by blast
    with ij show "map (\<lambda>p. player_id (objs s p)) (heap s) ! i \<noteq> map (\<lambda>p. player_id (objs s p)) (heap s) ! j"
      unfolding pid_at_def by simp
  qed
  with d sl show ?thesis
    unfolding bijection_inv_def slots_ok_def by blast
qed

section \<open>The heap order under the two sifts\<close>

lemma max_idx_ge_self: "score s i \<le> score s (max_idx s i)"
  by (simp add: max_idx_def Let_def)

lemma max_idx_ge_left: "left i < length (heap s) \<Longrightarrow> score s (left i) \<le> score s (max_idx s i)"
  by (simp add: max_idx_def Let_def)

lemma max_idx_ge_right: "right i < length (heap s) \<Longrightarrow> score s (right i) \<le> score s (max_idx s i)"
  by (simp add: max_idx_def Let_def)

lemma max_idx_gt: "max_idx s i \<noteq> i \<Longrightarrow> score s i < score s (max_idx s i)"
  by (simp add: max_idx_def Let_def split: if_splits)

lemma max_idx_ge_child:
  "j < length (heap s) \<Longrightarrow> 0 < j \<Longrightarrow> parent j = i \<Longrightarrow> score s j \<le> score s (max_idx s i)"
  using max_idx_ge_left [of i s] max_idx_ge_right [of i s] by (auto simp: parent_eq_iff)

lemma max_idx_parent: "max_idx s i \<noteq> i \<Longrightarrow> parent (max_idx s i) = i \<and> 0 < max_idx s i"
  using max_idx_cases [of s i] left_gt [of i] right_gt [of i] by auto

lemma heap_inv_up_inv: "heap_inv s \<Longrightarrow> up_inv s i"
proof -
  assume h: "heap_inv s"
  have "score s j \<le> score s (parent i)"
    if "j < length (heap s)" "0 < j" "parent j = i" "0 < i" for j
  proof -
    from that parent_less [of j] have "i < length (heap s)"
      by simp
    with h that have "score s i \<le> score s (parent i)" "score s j \<le> score s i"
      unfolding heap_inv_def by auto
    then show ?thesis by simp
  qed
  with h show ?thesis
    unfolding heap_inv_def up_inv_def by blast
qed

lemma heap_inv_down_inv: "heap_inv s \<Longrightarrow> down_inv s i"
proof -
  assume h: "heap_inv s"
  have "score s j \<le> score s (parent i)"
    if "j < length (heap s)" "0 < j" "parent j = i" "0 < i" for j
  proof -
    from that parent_less [of j] have "i < length (heap s)"
      by simp
    with h that have "score s i \<le> score s (parent i)" "score s j \<le> score s i"
      unfolding heap_inv_def by auto
    then show ?thesis by simp
  qed
  with h show ?thesis
    unfolding heap_inv_def down_inv_def by blast
qed

lemma up_inv_swap:
  assumes inv: "up_inv s i" and i: "0 < i" "i < length (heap s)"
    and gt: "score s (parent i) < score s i"
    and sw: "swap s i (parent i) = Inr s1"
  shows "up_inv s1 (parent i)"
proof -
  let ?p = "parent i"
  have p: "?p < i" using i by (simp add: parent_less)
  have len: "length (heap s1) = length (heap s)" using sw by (rule swap_length)
  have sc: "\<And>k. score s1 k = (if k = i then score s ?p else if k = ?p then score s i else score s k)"
    using sw by (rule swap_score)
  have A: "\<And>j. j < length (heap s) \<Longrightarrow> 0 < j \<Longrightarrow> j \<noteq> i \<Longrightarrow> score s j \<le> score s (parent j)"
    using inv unfolding up_inv_def by blast
  have B: "\<And>j. j < length (heap s) \<Longrightarrow> 0 < j \<Longrightarrow> parent j = i \<Longrightarrow> score s j \<le> score s ?p"
    using inv i unfolding up_inv_def by blast
  have first: "score s1 j \<le> score s1 (parent j)"
    if j: "j < length (heap s)" "0 < j" "j \<noteq> ?p" for j
  proof (cases "j = i")
    case True
    with gt p show ?thesis by (simp add: sc)
  next
    case False
    note ji = this
    have pj: "parent j < j" using j by (simp add: parent_less)
    show ?thesis
    proof (cases "parent j = i")
      case True
      with B [OF j(1,2)] ji j p show ?thesis by (simp add: sc)
    next
      case False
      show ?thesis
      proof (cases "parent j = ?p")
        case True
        with A [OF j(1,2) ji] gt ji j False show ?thesis by (simp add: sc)
      next
        case False
        with A [OF j(1,2) ji] ji j \<open>parent j \<noteq> i\<close> show ?thesis by (simp add: sc)
      qed
    qed
  qed
  have second: "score s1 j \<le> score s1 (parent ?p)"
    if j: "j < length (heap s)" "0 < j" "parent j = ?p" "0 < ?p" for j
  proof -
    have pp: "parent ?p < ?p" using j by (simp add: parent_less)
    have plen: "?p < length (heap s)" using p i by simp
    have "?p \<noteq> i" using p by simp
    from A [OF plen j(4) this] have top: "score s ?p \<le> score s (parent ?p)" .
    have jp: "j \<noteq> ?p" using j parent_less [of j] by auto
    show ?thesis
    proof (cases "j = i")
      case True
      with top pp p show ?thesis by (simp add: sc)
    next
      case False
      from A [OF j(1,2) False] j have "score s j \<le> score s ?p" by simp
      with top False jp pp p show ?thesis by (simp add: sc)
    qed
  qed
  from first second show ?thesis
    unfolding up_inv_def len by blast
qed

lemma up_inv_done:
  "up_inv s i \<Longrightarrow> i = 0 \<or> score s i \<le> score s (parent i) \<Longrightarrow> heap_inv s"
  unfolding up_inv_def heap_inv_def by (metis not_gr_zero)

lemma sift_up_heap:
  "sift_up s i = Inr s' \<Longrightarrow> up_inv s i \<Longrightarrow> heap_inv s'"
proof (induction s i rule: sift_up.induct)
  case (1 s i)
  show ?case
  proof (cases "0 < i \<and> i < length (heap s) \<and> score s (parent i) < score s i")
    case True
    with "1.prems"(1) obtain s1 where s1: "swap s i (parent i) = Inr s1"
      and rest: "sift_up s1 (parent i) = Inr s'"
      by (subst (asm) sift_up.simps) (auto split: sum.splits)
    from up_inv_swap [OF "1.prems"(2) _ _ _ s1] True have "up_inv s1 (parent i)"
      by simp
    with "1.IH" [of s1] True s1 rest show ?thesis
      by simp
  next
    case False
    with "1.prems"(1) have eq: "s' = s" and "i = 0 \<or> score s i \<le> score s (parent i)"
      by (subst (asm) sift_up.simps; auto split: if_splits)+
    with up_inv_done [OF "1.prems"(2)] show ?thesis
      by simp
  qed
qed

lemma down_inv_swap:
  assumes inv: "down_inv s i" and ne: "max_idx s i \<noteq> i"
    and sw: "swap s i (max_idx s i) = Inr s1"
  shows "down_inv s1 (max_idx s i)"
proof -
  let ?m = "max_idx s i"
  have m: "i < ?m" "?m < length (heap s)" using max_idx_bound [OF ne] by simp_all
  have pm: "parent ?m = i" "0 < ?m" using max_idx_parent [OF ne] by simp_all
  have len: "length (heap s1) = length (heap s)" using sw by (rule swap_length)
  have sc: "\<And>k. score s1 k = (if k = i then score s ?m else if k = ?m then score s i else score s k)"
    using sw by (rule swap_score)
  have gt: "score s i < score s ?m" using ne by (rule max_idx_gt)
  have A: "\<And>j. j < length (heap s) \<Longrightarrow> 0 < j \<Longrightarrow> parent j \<noteq> i \<Longrightarrow> score s j \<le> score s (parent j)"
    using inv unfolding down_inv_def by blast
  have B: "\<And>j. j < length (heap s) \<Longrightarrow> 0 < j \<Longrightarrow> parent j = i \<Longrightarrow> 0 < i \<Longrightarrow> score s j \<le> score s (parent i)"
    using inv unfolding down_inv_def by blast
  have first: "score s1 j \<le> score s1 (parent j)"
    if j: "j < length (heap s)" "0 < j" "parent j \<noteq> ?m" for j
  proof -
    have pj: "parent j < j" using j by (simp add: parent_less)
    show ?thesis
    proof (cases "j = ?m")
      case True
      with gt pm m show ?thesis by (simp add: sc)
    next
      case False
      note jm = this
      show ?thesis
      proof (cases "j = i")
        case True
        then have i0: "0 < i" using j by simp
        then have pi: "parent i < i" by (rule parent_less)
        from B [OF m(2) pm(2) pm(1) i0] have "score s ?m \<le> score s (parent i)" .
        with True pi m show ?thesis by (simp add: sc)
      next
        case False
        note ji = this
        show ?thesis
        proof (cases "parent j = i")
          case True
          with max_idx_ge_child [OF j(1,2) True] ji jm show ?thesis by (simp add: sc)
        next
          case False
          with A [OF j(1,2) False] ji jm j show ?thesis by (simp add: sc)
        qed
      qed
    qed
  qed
  have second: "score s1 j \<le> score s1 (parent ?m)"
    if j: "j < length (heap s)" "0 < j" "parent j = ?m" for j
  proof -
    have "?m < j" using j parent_less [of j] by simp
    with m have ne2: "j \<noteq> i" "j \<noteq> ?m" by simp_all
    from j m have "parent j \<noteq> i" by simp
    from A [OF j(1,2) this] j have "score s j \<le> score s ?m" by simp
    with ne2 pm show ?thesis by (simp add: sc)
  qed
  from first second show ?thesis
    unfolding down_inv_def len by blast
qed

lemma down_inv_done:
  assumes inv: "down_inv s i" and m: "max_idx s i = i"
  shows "heap_inv s"
  unfolding heap_inv_def
proof (intro allI impI)
  fix j assume j: "j < length (heap s)" "0 < j"
  show "score s j \<le> score s (parent j)"
  proof (cases "parent j = i")
    case True
    with max_idx_ge_child [OF j True] m show ?thesis by simp
  next
    case False
    with inv j show ?thesis unfolding down_inv_def by blast
  qed
qed

lemma sift_down_heap:
  "sift_down s i = Inr s' \<Longrightarrow> down_inv s i \<Longrightarrow> heap_inv s'"
proof (induction s i rule: sift_down.induct)
  case (1 s i)
  show ?case
  proof (cases "i = max_idx s i")
    case True
    with "1.prems"(1) have "s' = s"
      by (subst (asm) sift_down.simps) simp
    with down_inv_done [OF "1.prems"(2)] True show ?thesis
      by simp
  next
    case False
    with "1.prems"(1) obtain s1 where s1: "swap s i (max_idx s i) = Inr s1"
      and rest: "sift_down s1 (max_idx s i) = Inr s'"
      by (subst (asm) sift_down.simps) (auto split: sum.splits)
    from down_inv_swap [OF "1.prems"(2) _ s1] False have "down_inv s1 (max_idx s i)"
      by simp
    with "1.IH" [of s1] False s1 rest show ?thesis
      by simp
  qed
qed

lemma sift_up_noop:
  "i = 0 \<or> (i < length (heap s) \<and> score s i \<le> score s (parent i)) \<Longrightarrow> sift_up s i = Inr s"
  by (subst sift_up.simps) auto

lemma sift_down_noop: "max_idx s i = i \<Longrightarrow> sift_down s i = Inr s"
  by (subst sift_down.simps) simp

lemma max_idx_selfI:
  "(left i < length (heap s) \<Longrightarrow> score s (left i) \<le> score s i) \<Longrightarrow>
   (right i < length (heap s) \<Longrightarrow> score s (right i) \<le> score s i) \<Longrightarrow> max_idx s i = i"
  by (auto simp: max_idx_def Let_def)

section \<open>The public operations and the invariants\<close>

subsection \<open>What a sift keeps\<close>

lemma sift_up_objs: "sift_up s i = Inr s' \<Longrightarrow> objs s' = objs s"
  using sift_up_pres [where Q = "\<lambda>t. objs t = objs s"] swap_objs by metis

lemma sift_down_objs: "sift_down s i = Inr s' \<Longrightarrow> objs s' = objs s"
  using sift_down_pres [where Q = "\<lambda>t. objs t = objs s"] swap_objs by metis

lemma sift_up_length: "sift_up s i = Inr s' \<Longrightarrow> length (heap s') = length (heap s)"
  using sift_up_pres [where Q = "\<lambda>t. length (heap t) = length (heap s)"] swap_length by metis

lemma sift_down_length: "sift_down s i = Inr s' \<Longrightarrow> length (heap s') = length (heap s)"
  using sift_down_pres [where Q = "\<lambda>t. length (heap t) = length (heap s)"] swap_length by metis

lemma sift_up_mset: "sift_up s i = Inr s' \<Longrightarrow> mset (heap s') = mset (heap s)"
  using sift_up_pres [where Q = "\<lambda>t. mset (heap t) = mset (heap s)"] swap_mset by metis

lemma sift_down_mset: "sift_down s i = Inr s' \<Longrightarrow> mset (heap s') = mset (heap s)"
  using sift_down_pres [where Q = "\<lambda>t. mset (heap t) = mset (heap s)"] swap_mset by metis

lemma sift_up_map_ok: "sift_up s i = Inr s' \<Longrightarrow> map_ok s \<Longrightarrow> map_ok s'"
  using sift_up_pres [where Q = map_ok] swap_map_ok by blast

lemma sift_down_map_ok: "sift_down s i = Inr s' \<Longrightarrow> map_ok s \<Longrightarrow> map_ok s'"
  using sift_down_pres [where Q = map_ok] swap_map_ok by blast

lemma sift_up_slots_ok: "sift_up s i = Inr s' \<Longrightarrow> slots_ok s \<Longrightarrow> slots_ok s'"
  using sift_up_pres [where Q = slots_ok] swap_slots_ok by blast

lemma sift_down_slots_ok: "sift_down s i = Inr s' \<Longrightarrow> slots_ok s \<Longrightarrow> slots_ok s'"
  using sift_down_pres [where Q = slots_ok] swap_slots_ok by blast

lemma mset_distinct: "mset xs = mset ys \<Longrightarrow> distinct xs \<Longrightarrow> distinct ys"
  using mset_eq_imp_distinct_iff by blast

subsection \<open>Adding\<close>

lemma add_player_eq: "add_player s p = sift_up (appended s p) (length (heap s))"
  by (simp add: add_player_def appended_def Let_def)

lemma appended_simps [simp]:
  "objs (appended s p) = objs s"
  "heap (appended s p) = heap s @ [p]"
  "position_map (appended s p) = (position_map s)(player_id (objs s p) \<mapsto> length (heap s))"
  by (simp_all add: appended_def)

lemma appended_score: "j < length (heap s) \<Longrightarrow> score (appended s p) j = score s j"
  by (simp add: score_def nth_append)

lemma appended_pid_at:
  "pid_at (appended s p) j = (if j < length (heap s) then pid_at s j
     else if j = length (heap s) then player_id (objs s p) else pid_at (appended s p) j)"
  by (simp add: pid_at_def nth_append)

lemma appended_map_ok: "map_ok s \<Longrightarrow> map_ok (appended s p)"
  unfolding map_ok_def
  by (auto simp: appended_pid_at less_Suc_eq split: if_splits)

lemma appended_slots_ok:
  assumes sl: "slots_ok s" and fresh: "position_map s (player_id (objs s p)) = None"
  shows "slots_ok (appended s p)"
  unfolding slots_ok_def
proof (intro allI impI)
  fix i assume "i < length (heap (appended s p))"
  then consider "i < length (heap s)" | "i = length (heap s)"
    by fastforce
  then show "position_map (appended s p) (pid_at (appended s p) i) = Some i"
  proof cases
    case 1
    with sl have "position_map s (pid_at s i) = Some i"
      unfolding slots_ok_def by blast
    with fresh 1 show ?thesis
      by (auto simp: appended_pid_at)
  next
    case 2
    then show ?thesis
      by (simp add: appended_pid_at)
  qed
qed

lemma appended_up_inv: "heap_inv s \<Longrightarrow> up_inv (appended s p) (length (heap s))"
  unfolding up_inv_def
proof (intro conjI allI impI)
  fix j
  assume h: "heap_inv s" and j: "j < length (heap (appended s p))" "0 < j" "j \<noteq> length (heap s)"
  then have jl: "j < length (heap s)" by simp
  with j parent_less [of j] have "parent j < length (heap s)" by simp
  with h jl j show "score (appended s p) j \<le> score (appended s p) (parent j)"
    unfolding heap_inv_def by (simp add: appended_score)
next
  fix j
  assume "j < length (heap (appended s p))" "0 < j" "parent j = length (heap s)"
  with parent_less [of j] have False by simp
  then show "score (appended s p) j \<le> score (appended s p) (parent (length (heap s)))" ..
qed

lemma add_player_returns: "\<exists>s'. add_player s p = Inr s'"
  unfolding add_player_eq by (rule sift_up_returns) simp

lemma add_player_objs: "add_player s p = Inr s' \<Longrightarrow> objs s' = objs s"
  unfolding add_player_eq by (drule sift_up_objs) simp

lemma add_player_mset: "add_player s p = Inr s' \<Longrightarrow> mset (heap s') = mset (heap s) + {#p#}"
  unfolding add_player_eq by (drule sift_up_mset) simp

lemma add_player_map_ok: "add_player s p = Inr s' \<Longrightarrow> map_ok s \<Longrightarrow> map_ok s'"
  unfolding add_player_eq using sift_up_map_ok appended_map_ok by blast

lemma add_player_slots_ok:
  "add_player s p = Inr s' \<Longrightarrow> slots_ok s \<Longrightarrow> position_map s (player_id (objs s p)) = None \<Longrightarrow>
     slots_ok s'"
  unfolding add_player_eq using sift_up_slots_ok appended_slots_ok by blast

lemma add_player_heap_inv: "add_player s p = Inr s' \<Longrightarrow> heap_inv s \<Longrightarrow> heap_inv s'"
  unfolding add_player_eq using sift_up_heap appended_up_inv by blast

lemma add_player_distinct:
  "add_player s p = Inr s' \<Longrightarrow> distinct (heap s) \<Longrightarrow> p \<notin> set (heap s) \<Longrightarrow> distinct (heap s')"
proof -
  assume a: "add_player s p = Inr s'" and d: "distinct (heap s)" "p \<notin> set (heap s)"
  from a have "mset (heap s') = mset (heap s @ [p])"
    by (simp add: add_player_mset)
  moreover from d have "distinct (heap s @ [p])"
    by simp
  ultimately show ?thesis
    using mset_distinct by metis
qed

subsection \<open>Removing\<close>

lemma fold_player_found:
  assumes ok: "map_ok s" and look: "position_map s k = Some index"
  shows "\<exists>s1. index < length (heap s) \<and> pid_at s index = k \<and>
           swap s index (length (heap s) - 1) = Inr s1 \<and>
           fold_player s k =
             (if index < length (heap s) - 1 then
                (case sift_up (popped s1 k) index of
                   Inl e \<Rightarrow> Inl e
                 | Inr s3 \<Rightarrow> sift_down s3 index)
              else Inr (popped s1 k))"
proof -
  from ok look have idx: "index < length (heap s)" and pid: "pid_at s index = k"
    unfolding map_ok_def by blast+
  then have "length (heap s) - 1 < length (heap s)"
    by simp
  with idx obtain s1 where s1: "swap s index (length (heap s) - 1) = Inr s1"
    using swap_in_range by blast
  then have "position_map s1 k = Some (length (heap s) - 1)"
    by (simp add: swap_position_map pid)
  with look idx s1 have "fold_player s k =
             (if index < length (heap s) - 1 then
                (case sift_up (popped s1 k) index of
                   Inl e \<Rightarrow> Inl e
                 | Inr s3 \<Rightarrow> sift_down s3 index)
              else Inr (popped s1 k))"
    by (simp add: fold_player_def popped_def Let_def swap_length)
  with idx pid s1 show ?thesis
    by blast
qed

lemma popped_simps [simp]:
  "objs (popped s1 k) = objs s1"
  "heap (popped s1 k) = butlast (heap s1)"
  "position_map (popped s1 k) = (position_map s1)(k := None)"
  by (simp_all add: popped_def)

text \<open>The state after swap, pop and delete, read off the state before the call.\<close>

lemma popped_nth:
  assumes sw: "swap s index (length (heap s) - 1) = Inr s1" and j: "j < length (heap s) - 1"
  shows "heap (popped s1 k) ! j = (if j = index then heap s ! (length (heap s) - 1) else heap s ! j)"
proof -
  from j have "j < length (heap s1) - 1"
    using swap_length [OF sw] by simp
  then have "butlast (heap s1) ! j = heap s1 ! j"
    by (simp add: nth_butlast)
  with j show ?thesis
    by (simp add: swap_nth [OF sw])
qed

lemma popped_score:
  assumes sw: "swap s index (length (heap s) - 1) = Inr s1" and j: "j < length (heap s) - 1"
  shows "score (popped s1 k) j = (if j = index then score s (length (heap s) - 1) else score s j)"
  using popped_nth [OF sw j] by (simp add: score_def swap_objs [OF sw])

lemma popped_pid_at:
  assumes sw: "swap s index (length (heap s) - 1) = Inr s1" and j: "j < length (heap s) - 1"
  shows "pid_at (popped s1 k) j = pid_at s1 j"
proof -
  from j have "j < length (heap s1) - 1"
    using swap_length [OF sw] by simp
  then have "butlast (heap s1) ! j = heap s1 ! j"
    by (simp add: nth_butlast)
  then show ?thesis
    by (simp add: pid_at_def)
qed

lemma popped_mset:
  assumes sw: "swap s index (length (heap s) - 1) = Inr s1"
  shows "mset (heap s) = mset (heap (popped s1 k)) + {#heap s ! index#}"
proof -
  from sw have ne: "heap s1 \<noteq> []" and idx: "index < length (heap s)"
    by (auto simp: swap_Inr_iff)
  have "last (heap s1) = heap s1 ! (length (heap s) - 1)"
    using ne by (simp add: last_conv_nth swap_length [OF sw])
  also have "\<dots> = heap s ! index"
    using idx by (simp add: swap_nth [OF sw])
  finally have l: "last (heap s1) = heap s ! index" .
  have "mset (heap s1) = mset (butlast (heap s1) @ [last (heap s1)])"
    using ne by simp
  with l show ?thesis
    by (simp add: swap_mset [OF sw, symmetric])
qed

lemma popped_map_ok:
  assumes ok: "map_ok s" and pid: "pid_at s index = k"
    and sw: "swap s index (length (heap s) - 1) = Inr s1"
  shows "map_ok (popped s1 k)"
  unfolding map_ok_def
proof (intro allI impI)
  fix k' i
  assume look: "position_map (popped s1 k) k' = Some i"
  then have kk: "k' \<noteq> k" and l1: "position_map s1 k' = Some i"
    by (auto split: if_splits)
  from swap_map_ok [OF ok sw] l1 have i: "i < length (heap s1)" "pid_at s1 i = k'"
    unfolding map_ok_def by blast+
  from sw have "index < length (heap s)"
    by (auto simp: swap_Inr_iff)
  then have "pid_at s1 (length (heap s) - 1) = k"
    by (simp add: swap_pid_at [OF sw] pid)
  with i kk have "i \<noteq> length (heap s) - 1"
    by auto
  with i have "i < length (heap s) - 1"
    by (simp add: swap_length [OF sw])
  with i popped_pid_at [OF sw this, of k]
  show "i < length (heap (popped s1 k)) \<and> pid_at (popped s1 k) i = k'"
    by (simp add: swap_length [OF sw])
qed

lemma popped_slots_ok:
  assumes sl: "slots_ok s" and pid: "pid_at s index = k"
    and sw: "swap s index (length (heap s) - 1) = Inr s1"
  shows "slots_ok (popped s1 k)"
  unfolding slots_ok_def
proof (intro allI impI)
  fix i
  assume "i < length (heap (popped s1 k))"
  then have i: "i < length (heap s) - 1"
    by (simp add: swap_length [OF sw])
  from sw have idx: "index < length (heap s)"
    by (auto simp: swap_Inr_iff)
  have sl1: "slots_ok s1"
    using swap_slots_ok [OF sl sw] .
  from i have i1: "i < length (heap s1)"
    by (simp add: swap_length [OF sw])
  with sl1 have a: "position_map s1 (pid_at s1 i) = Some i"
    unfolding slots_ok_def by blast
  from idx have "pid_at s1 (length (heap s) - 1) = k"
    by (simp add: swap_pid_at [OF sw] pid)
  moreover from idx sl1 have "position_map s1 (pid_at s1 (length (heap s) - 1)) = Some (length (heap s) - 1)"
    unfolding slots_ok_def by (simp add: swap_length [OF sw])
  ultimately have "position_map s1 k = Some (length (heap s) - 1)"
    by simp
  with a i have "pid_at s1 i \<noteq> k"
    by auto
  with a show "position_map (popped s1 k) (pid_at (popped s1 k) i) = Some i"
    by (simp add: popped_pid_at [OF sw i])
qed

lemma heap_inv_grand:
  assumes h: "heap_inv s" and j: "j < length (heap s)" "0 < j" "0 < parent j"
  shows "score s j \<le> score s (parent (parent j))"
proof -
  from j parent_less [of j] have "parent j < length (heap s)"
    by simp
  with h j have "score s j \<le> score s (parent j)" "score s (parent j) \<le> score s (parent (parent j))"
    unfolding heap_inv_def by blast+
  then show ?thesis by simp
qed

lemma popped_up_inv:
  assumes h: "heap_inv s" and sw: "swap s index (length (heap s) - 1) = Inr s1"
    and idx: "index < length (heap s) - 1" "0 < index"
    and gt: "score (popped s1 k) (parent index) < score (popped s1 k) index"
  shows "up_inv (popped s1 k) index"
  unfolding up_inv_def
proof (intro conjI allI impI)
  have pil: "parent index < length (heap s) - 1" "parent index \<noteq> index"
    using parent_less [OF idx(2)] idx(1) by simp_all
  from gt have gt': "score s (parent index) < score s (length (heap s) - 1)"
    by (simp add: popped_score [OF sw idx(1)] popped_score [OF sw pil(1)] pil(2))
  {
    fix j
    assume j: "j < length (heap (popped s1 k))" "0 < j" "j \<noteq> index"
    then have jl: "j < length (heap s) - 1"
      by (simp add: swap_length [OF sw])
    then have pl: "parent j < length (heap s) - 1"
      using parent_less [OF j(2)] by simp
    from h jl j have a: "score s j \<le> score s (parent j)"
      unfolding heap_inv_def by simp
    show "score (popped s1 k) j \<le> score (popped s1 k) (parent j)"
    proof (cases "parent j = index")
      case True
      with heap_inv_grand [OF h _ j(2)] jl idx have "score s j \<le> score s (parent index)"
        by simp
      with gt' True j(3) show ?thesis
        by (simp add: popped_score [OF sw jl] popped_score [OF sw idx(1)])
    next
      case False
      with a j show ?thesis
        by (simp add: popped_score [OF sw jl] popped_score [OF sw pl])
    qed
  }
  {
    fix j
    assume j: "j < length (heap (popped s1 k))" "0 < j" "parent j = index" "0 < index"
    then have jl: "j < length (heap s) - 1"
      by (simp add: swap_length [OF sw])
    from j parent_less [of j] have ji: "j \<noteq> index"
      by auto
    from heap_inv_grand [OF h _ j(2)] jl j have "score s j \<le> score s (parent index)"
      by simp
    with ji pil show "score (popped s1 k) j \<le> score (popped s1 k) (parent index)"
      by (simp add: popped_score [OF sw jl] popped_score [OF sw pil(1)])
  }
qed

lemma popped_down_inv:
  assumes h: "heap_inv s" and sw: "swap s index (length (heap s) - 1) = Inr s1"
    and idx: "index < length (heap s) - 1"
    and le: "index = 0 \<or> score (popped s1 k) index \<le> score (popped s1 k) (parent index)"
  shows "down_inv (popped s1 k) index"
  unfolding down_inv_def
proof (intro conjI allI impI)
  {
    fix j
    assume j: "j < length (heap (popped s1 k))" "0 < j" "parent j \<noteq> index"
    then have jl: "j < length (heap s) - 1"
      by (simp add: swap_length [OF sw])
    then have pl: "parent j < length (heap s) - 1"
      using parent_less [OF j(2)] by simp
    from h jl j have a: "score s j \<le> score s (parent j)"
      unfolding heap_inv_def by simp
    show "score (popped s1 k) j \<le> score (popped s1 k) (parent j)"
    proof (cases "j = index")
      case True
      with le j show ?thesis
        by simp
    next
      case False
      with a j show ?thesis
        by (simp add: popped_score [OF sw jl] popped_score [OF sw pl])
    qed
  }
  {
    fix j
    assume j: "j < length (heap (popped s1 k))" "0 < j" "parent j = index" "0 < index"
    then have jl: "j < length (heap s) - 1"
      by (simp add: swap_length [OF sw])
    have pil: "parent index < length (heap s) - 1" "parent index \<noteq> index"
      using parent_less [OF j(4)] idx(1) by simp_all
    from j parent_less [of j] have ji: "j \<noteq> index"
      by auto
    from heap_inv_grand [OF h _ j(2)] jl j have "score s j \<le> score s (parent index)"
      by simp
    with ji pil show "score (popped s1 k) j \<le> score (popped s1 k) (parent index)"
      by (simp add: popped_score [OF sw jl] popped_score [OF sw pil(1)])
  }
qed

lemma popped_last_heap_inv:
  assumes h: "heap_inv s" and sw: "swap s index (length (heap s) - 1) = Inr s1"
    and idx: "\<not> index < length (heap s) - 1"
  shows "heap_inv (popped s1 k)"
  unfolding heap_inv_def
proof (intro allI impI)
  fix j
  assume j: "j < length (heap (popped s1 k))" "0 < j"
  then have jl: "j < length (heap s) - 1"
    by (simp add: swap_length [OF sw])
  then have pl: "parent j < length (heap s) - 1"
    using parent_less [OF j(2)] by simp
  from h jl j have "score s j \<le> score s (parent j)"
    unfolding heap_inv_def by simp
  with idx jl pl show "score (popped s1 k) j \<le> score (popped s1 k) (parent j)"
    by (simp add: popped_score [OF sw jl] popped_score [OF sw pl])
qed

text \<open>The rebalance of \<^verbatim>\<open>fold_player\<close>: sift up, then sift down, from the same slot.\<close>

lemma rebalance_heap_inv:
  assumes up: "0 < i \<and> score s (parent i) < score s i \<Longrightarrow> up_inv s i"
    and down: "i = 0 \<or> score s i \<le> score s (parent i) \<Longrightarrow> down_inv s i"
    and i: "i < length (heap s)"
    and a: "sift_up s i = Inr s3" and b: "sift_down s3 i = Inr s'"
  shows "heap_inv s'"
proof (cases "0 < i \<and> score s (parent i) < score s i")
  case True
  from sift_up_heap [OF a up [OF True]] have "heap_inv s3" .
  then have "down_inv s3 i"
    by (rule heap_inv_down_inv)
  with b show ?thesis
    by (rule sift_down_heap)
next
  case False
  then have c: "i = 0 \<or> score s i \<le> score s (parent i)"
    by auto
  with i have "sift_up s i = Inr s"
    by (intro sift_up_noop) auto
  with a have "s3 = s"
    by simp
  with b down [OF c] show ?thesis
    using sift_down_heap by blast
qed

lemma fold_player_heap_inv:
  assumes f: "fold_player s k = Inr s'" and h: "heap_inv s" and ok: "map_ok s"
  shows "heap_inv s'"
proof (cases "position_map s k")
  case None
  with f h show ?thesis
    by (simp add: fold_player_def)
next
  case (Some index)
  from fold_player_found [OF ok Some] obtain s1 where
    sw: "swap s index (length (heap s) - 1) = Inr s1" and
    eq: "fold_player s k =
             (if index < length (heap s) - 1 then
                (case sift_up (popped s1 k) index of
                   Inl e \<Rightarrow> Inl e
                 | Inr s3 \<Rightarrow> sift_down s3 index)
              else Inr (popped s1 k))"
    by blast
  show ?thesis
  proof (cases "index < length (heap s) - 1")
    case True
    with f eq obtain s3 where a: "sift_up (popped s1 k) index = Inr s3"
      and b: "sift_down s3 index = Inr s'"
      by (auto split: sum.splits)
    from True have il: "index < length (heap (popped s1 k))"
      by (simp add: swap_length [OF sw])
    show ?thesis
      using popped_up_inv [OF h sw True] popped_down_inv [OF h sw True] il a b
      by (intro rebalance_heap_inv [where s = "popped s1 k" and i = index]) auto
  next
    case False
    with f eq have "s' = popped s1 k"
      by simp
    with popped_last_heap_inv [OF h sw False] show ?thesis
      by simp
  qed
qed

text \<open>
  What a successful \<^verbatim>\<open>fold_player\<close> of a present id does, in one statement: the call
  returns, the objects are untouched, the array loses the one element the position map
  pointed to, and every property that the swap, the pop with the delete, and the two sifts
  all keep is kept.
\<close>

lemma fold_player_present:
  assumes ok: "map_ok s" and look: "position_map s k = Some index"
  shows "\<exists>s'. fold_player s k = Inr s' \<and> objs s' = objs s \<and>
           mset (heap s) = mset (heap s') + {#heap s ! index#} \<and> map_ok s' \<and>
           (slots_ok s \<longrightarrow> slots_ok s')"
proof -
  from fold_player_found [OF ok look] obtain s1 where
    pid: "pid_at s index = k" and
    sw: "swap s index (length (heap s) - 1) = Inr s1" and
    eq: "fold_player s k =
             (if index < length (heap s) - 1 then
                (case sift_up (popped s1 k) index of
                   Inl e \<Rightarrow> Inl e
                 | Inr s3 \<Rightarrow> sift_down s3 index)
              else Inr (popped s1 k))"
    by blast
  let ?s2 = "popped s1 k"
  have o2: "objs ?s2 = objs s"
    by (simp add: swap_objs [OF sw])
  have m2: "mset (heap s) = mset (heap ?s2) + {#heap s ! index#}"
    by (rule popped_mset [OF sw])
  have ok2: "map_ok ?s2"
    by (rule popped_map_ok [OF ok pid sw])
  have sl2: "slots_ok s \<longrightarrow> slots_ok ?s2"
    using popped_slots_ok [OF _ pid sw] by blast
  show ?thesis
  proof (cases "index < length (heap s) - 1")
    case True
    then have "index < length (heap ?s2)"
      by (simp add: swap_length [OF sw])
    then obtain s3 where a: "sift_up ?s2 index = Inr s3"
      using sift_up_returns by blast
    obtain s' where b: "sift_down s3 index = Inr s'"
      using sift_down_returns by blast
    from True a b eq have r: "fold_player s k = Inr s'"
      by simp
    have "objs s' = objs s"
      using sift_down_objs [OF b] sift_up_objs [OF a] o2 by simp
    moreover have "mset (heap s) = mset (heap s') + {#heap s ! index#}"
      using sift_down_mset [OF b] sift_up_mset [OF a] m2 by simp
    moreover have "map_ok s'"
      using sift_down_map_ok [OF b] sift_up_map_ok [OF a] ok2 by blast
    moreover have "slots_ok s \<longrightarrow> slots_ok s'"
      using sift_down_slots_ok [OF b] sift_up_slots_ok [OF a] sl2 by blast
    ultimately show ?thesis
      using r by blast
  next
    case False
    with eq have "fold_player s k = Inr ?s2"
      by simp
    with o2 m2 ok2 sl2 show ?thesis
      by blast
  qed
qed

lemma fold_player_absent: "position_map s k = None \<Longrightarrow> fold_player s k = Inr s"
  by (simp add: fold_player_def)

lemma fold_player_returns: "map_ok s \<Longrightarrow> \<exists>s'. fold_player s k = Inr s'"
proof (cases "position_map s k")
  case None
  then show ?thesis by (simp add: fold_player_absent)
next
  case (Some index)
  assume "map_ok s"
  from fold_player_present [OF this Some] show ?thesis by blast
qed

lemma fold_player_objs: "map_ok s \<Longrightarrow> fold_player s k = Inr s' \<Longrightarrow> objs s' = objs s"
proof (cases "position_map s k")
  case None
  assume "fold_player s k = Inr s'"
  with None show ?thesis by (simp add: fold_player_absent)
next
  case (Some index)
  assume "map_ok s" "fold_player s k = Inr s'"
  with fold_player_present [OF this(1) Some] show ?thesis by auto
qed

lemma fold_player_map_ok: "map_ok s \<Longrightarrow> fold_player s k = Inr s' \<Longrightarrow> map_ok s'"
proof (cases "position_map s k")
  case None
  assume "map_ok s" "fold_player s k = Inr s'"
  with None show ?thesis by (simp add: fold_player_absent)
next
  case (Some index)
  assume "map_ok s" "fold_player s k = Inr s'"
  with fold_player_present [OF this(1) Some] show ?thesis by auto
qed

lemma fold_player_slots_ok:
  "map_ok s \<Longrightarrow> slots_ok s \<Longrightarrow> fold_player s k = Inr s' \<Longrightarrow> slots_ok s'"
proof (cases "position_map s k")
  case None
  assume "slots_ok s" "fold_player s k = Inr s'"
  with None show ?thesis by (simp add: fold_player_absent)
next
  case (Some index)
  assume "map_ok s" "slots_ok s" "fold_player s k = Inr s'"
  with fold_player_present [OF this(1) Some] show ?thesis by auto
qed

lemma fold_player_distinct:
  assumes ok: "map_ok s" and d: "distinct (heap s)" and f: "fold_player s k = Inr s'"
  shows "distinct (heap s')"
proof (cases "position_map s k")
  case None
  with f d show ?thesis
    by (simp add: fold_player_def)
next
  case (Some index)
  with fold_player_present [OF ok Some] f
  have "mset (heap s) = mset (heap s') + {#heap s ! index#}"
    by simp
  then have "mset (heap s) = mset (heap s' @ [heap s ! index])"
    by simp
  from mset_distinct [OF this d] have "distinct (heap s' @ [heap s ! index])" .
  then show ?thesis
    by simp
qed

subsection \<open>Updating\<close>

lemma rescored_simps [simp]:
  "heap (rescored s i v) = heap s"
  "position_map (rescored s i v) = position_map s"
  "player_id (objs (rescored s i v) p) = player_id (objs s p)"
  by (simp_all add: rescored_def)

lemma rescored_pid_at [simp]: "pid_at (rescored s i v) j = pid_at s j"
  by (simp add: pid_at_def)

lemma rescored_score:
  assumes d: "distinct (heap s)" and i: "i < length (heap s)" and j: "j < length (heap s)"
  shows "score (rescored s i v) j = (if j = i then v else score s j)"
proof -
  from d i j have "heap s ! j = heap s ! i \<longleftrightarrow> j = i"
    by (simp add: nth_eq_iff_index_eq)
  then show ?thesis
    by (auto simp: score_def rescored_def)
qed

lemma rescored_map_ok: "map_ok s \<Longrightarrow> map_ok (rescored s i v)"
  by (simp add: map_ok_def)

lemma rescored_slots_ok: "slots_ok s \<Longrightarrow> slots_ok (rescored s i v)"
  by (simp add: slots_ok_def)

lemma update_found:
  assumes ok: "map_ok s" and look: "position_map s k = Some index"
  shows "index < length (heap s) \<and> pid_at s index = k \<and>
         update_hand_strength s k v =
           (if score s index < v then sift_up (rescored s index v) index
            else sift_down (rescored s index v) index)"
proof -
  from ok look have idx: "index < length (heap s)" and pid: "pid_at s index = k"
    unfolding map_ok_def by blast+
  with look show ?thesis
    by (simp add: update_hand_strength_def rescored_def score_def Let_def)
qed

lemma update_absent: "position_map s k = None \<Longrightarrow> update_hand_strength s k v = Inr s"
  by (simp add: update_hand_strength_def)

lemma rescored_up_inv:
  assumes h: "heap_inv s" and d: "distinct (heap s)" and i: "i < length (heap s)"
    and gt: "score s i < v"
  shows "up_inv (rescored s i v) i"
  unfolding up_inv_def
proof (intro conjI allI impI)
  {
    fix j
    assume j: "j < length (heap (rescored s i v))" "0 < j" "j \<noteq> i"
    then have jl: "j < length (heap s)" by simp
    then have pl: "parent j < length (heap s)"
      using parent_less [OF j(2)] by simp
    from h jl j have "score s j \<le> score s (parent j)"
      unfolding heap_inv_def by simp
    with gt j show "score (rescored s i v) j \<le> score (rescored s i v) (parent j)"
      by (auto simp: rescored_score [OF d i jl] rescored_score [OF d i pl])
  }
  {
    fix j
    assume j: "j < length (heap (rescored s i v))" "0 < j" "parent j = i" "0 < i"
    then have jl: "j < length (heap s)" by simp
    have pil: "parent i < length (heap s)" "parent i \<noteq> i"
      using parent_less [OF j(4)] i by simp_all
    from j parent_less [of j] have ji: "j \<noteq> i"
      by auto
    from heap_inv_grand [OF h jl j(2)] j have "score s j \<le> score s (parent i)"
      by simp
    with ji pil show "score (rescored s i v) j \<le> score (rescored s i v) (parent i)"
      by (simp add: rescored_score [OF d i jl] rescored_score [OF d i pil(1)])
  }
qed

lemma rescored_down_inv:
  assumes h: "heap_inv s" and d: "distinct (heap s)" and i: "i < length (heap s)"
    and le: "v \<le> score s i"
  shows "down_inv (rescored s i v) i"
  unfolding down_inv_def
proof (intro conjI allI impI)
  {
    fix j
    assume j: "j < length (heap (rescored s i v))" "0 < j" "parent j \<noteq> i"
    then have jl: "j < length (heap s)" by simp
    then have pl: "parent j < length (heap s)"
      using parent_less [OF j(2)] by simp
    from h jl j have "score s j \<le> score s (parent j)"
      unfolding heap_inv_def by simp
    with le j show "score (rescored s i v) j \<le> score (rescored s i v) (parent j)"
      by (auto simp: rescored_score [OF d i jl] rescored_score [OF d i pl])
  }
  {
    fix j
    assume j: "j < length (heap (rescored s i v))" "0 < j" "parent j = i" "0 < i"
    then have jl: "j < length (heap s)" by simp
    have pil: "parent i < length (heap s)" "parent i \<noteq> i"
      using parent_less [OF j(4)] i by simp_all
    from j parent_less [of j] have ji: "j \<noteq> i"
      by auto
    from heap_inv_grand [OF h jl j(2)] j have "score s j \<le> score s (parent i)"
      by simp
    with ji pil show "score (rescored s i v) j \<le> score (rescored s i v) (parent i)"
      by (simp add: rescored_score [OF d i jl] rescored_score [OF d i pil(1)])
  }
qed

lemma update_heap_inv:
  assumes u: "update_hand_strength s k v = Inr s'" and h: "heap_inv s" and ok: "map_ok s"
    and d: "distinct (heap s)"
  shows "heap_inv s'"
proof (cases "position_map s k")
  case None
  with u h show ?thesis
    by (simp add: update_absent)
next
  case (Some index)
  from update_found [OF ok Some, of v] have i: "index < length (heap s)"
    and eq: "update_hand_strength s k v =
           (if score s index < v then sift_up (rescored s index v) index
            else sift_down (rescored s index v) index)"
    by simp_all
  show ?thesis
  proof (cases "score s index < v")
    case True
    with u eq have "sift_up (rescored s index v) index = Inr s'"
      by simp
    then show ?thesis
      using rescored_up_inv [OF h d i True] by (rule sift_up_heap)
  next
    case False
    with u eq have "sift_down (rescored s index v) index = Inr s'"
      by simp
    then show ?thesis
      using rescored_down_inv [OF h d i] False by (intro sift_down_heap [of _ index]) auto
  qed
qed

text \<open>
  A successful \<^verbatim>\<open>update_hand_strength\<close>: the call returns, the array is a permutation of
  what it was, ids are untouched, and what every swap keeps is kept.
\<close>

lemma update_present:
  assumes ok: "map_ok s" and look: "position_map s k = Some index"
  shows "\<exists>s'. update_hand_strength s k v = Inr s' \<and>
           objs s' = objs (rescored s index v) \<and>
           mset (heap s') = mset (heap s) \<and> map_ok s' \<and> (slots_ok s \<longrightarrow> slots_ok s')"
proof -
  let ?s1 = "rescored s index v"
  from update_found [OF ok look, of v] have i: "index < length (heap s)"
    and eq: "update_hand_strength s k v =
           (if score s index < v then sift_up ?s1 index else sift_down ?s1 index)"
    by simp_all
  have ok1: "map_ok ?s1"
    using ok by (rule rescored_map_ok)
  have sl1: "slots_ok s \<longrightarrow> slots_ok ?s1"
    using rescored_slots_ok by blast
  show ?thesis
  proof (cases "score s index < v")
    case True
    from i obtain s' where a: "sift_up ?s1 index = Inr s'"
      using sift_up_returns [of index ?s1] by auto
    with True eq have "update_hand_strength s k v = Inr s'"
      by simp
    moreover have "objs s' = objs ?s1" "mset (heap s') = mset (heap s)"
      using sift_up_objs [OF a] sift_up_mset [OF a] by simp_all
    moreover have "map_ok s'" "slots_ok s \<longrightarrow> slots_ok s'"
      using sift_up_map_ok [OF a ok1] sift_up_slots_ok [OF a] sl1 by blast+
    ultimately show ?thesis
      by blast
  next
    case False
    obtain s' where a: "sift_down ?s1 index = Inr s'"
      using sift_down_returns by blast
    with False eq have "update_hand_strength s k v = Inr s'"
      by simp
    moreover have "objs s' = objs ?s1" "mset (heap s') = mset (heap s)"
      using sift_down_objs [OF a] sift_down_mset [OF a] by simp_all
    moreover have "map_ok s'" "slots_ok s \<longrightarrow> slots_ok s'"
      using sift_down_map_ok [OF a ok1] sift_down_slots_ok [OF a] sl1 by blast+
    ultimately show ?thesis
      by blast
  qed
qed

lemma update_returns: "map_ok s \<Longrightarrow> \<exists>s'. update_hand_strength s k v = Inr s'"
proof (cases "position_map s k")
  case None
  then show ?thesis by (simp add: update_absent)
next
  case (Some index)
  assume "map_ok s"
  from update_present [OF this Some] show ?thesis by blast
qed

lemma update_map_ok: "map_ok s \<Longrightarrow> update_hand_strength s k v = Inr s' \<Longrightarrow> map_ok s'"
proof (cases "position_map s k")
  case None
  assume "map_ok s" "update_hand_strength s k v = Inr s'"
  with None show ?thesis by (simp add: update_absent)
next
  case (Some index)
  assume "map_ok s" "update_hand_strength s k v = Inr s'"
  with update_present [OF this(1) Some, of v] show ?thesis by auto
qed

lemma update_slots_ok:
  "map_ok s \<Longrightarrow> slots_ok s \<Longrightarrow> update_hand_strength s k v = Inr s' \<Longrightarrow> slots_ok s'"
proof (cases "position_map s k")
  case None
  assume "slots_ok s" "update_hand_strength s k v = Inr s'"
  with None show ?thesis by (simp add: update_absent)
next
  case (Some index)
  assume "map_ok s" "slots_ok s" "update_hand_strength s k v = Inr s'"
  with update_present [OF this(1) Some, of v] show ?thesis by auto
qed

lemma update_mset:
  "map_ok s \<Longrightarrow> update_hand_strength s k v = Inr s' \<Longrightarrow> mset (heap s') = mset (heap s)"
proof (cases "position_map s k")
  case None
  assume "update_hand_strength s k v = Inr s'"
  with None show ?thesis by (simp add: update_absent)
next
  case (Some index)
  assume "map_ok s" "update_hand_strength s k v = Inr s'"
  with update_present [OF this(1) Some, of v] show ?thesis by auto
qed

lemma update_distinct:
  "map_ok s \<Longrightarrow> distinct (heap s) \<Longrightarrow> update_hand_strength s k v = Inr s' \<Longrightarrow> distinct (heap s')"
  using update_mset [of s k v s'] mset_distinct [of "heap s" "heap s'"] by simp

section \<open>Sequences of calls\<close>

lemma heap_invD: "heap_inv s \<Longrightarrow> i < length (heap s) \<Longrightarrow> 0 < i \<Longrightarrow> score s i \<le> score s (parent i)"
  unfolding heap_inv_def by blast

lemma exec_order:
  assumes h: "heap_inv s" and ok: "map_ok s" and d: "distinct (heap s)"
    and new: "\<And>p. x = Add p \<Longrightarrow> p \<notin> set (heap s)"
  shows "\<exists>s'. exec s x = Inr s' \<and> heap_inv s' \<and> map_ok s' \<and> distinct (heap s')"
proof (cases x)
  case (Add p)
  obtain s' where a: "add_player s p = Inr s'"
    using add_player_returns by blast
  with Add new [OF Add] h ok d show ?thesis
    using add_player_heap_inv [OF a] add_player_map_ok [OF a] add_player_distinct [OF a] by simp
next
  case (Fold k)
  obtain s' where a: "fold_player s k = Inr s'"
    using fold_player_returns [OF ok] by blast
  with Fold h ok d show ?thesis
    using fold_player_heap_inv [OF a] fold_player_map_ok [OF ok a] fold_player_distinct [OF ok d a]
    by simp
next
  case (Update k v)
  obtain s' where a: "update_hand_strength s k v = Inr s'"
    using update_returns [OF ok] by blast
  with Update h ok d show ?thesis
    using update_heap_inv [OF a] update_map_ok [OF ok a] update_distinct [OF ok d a]
    by simp
next
  case GetWinner
  with h ok d show ?thesis by simp
qed

lemma results_order:
  "heap_inv s \<Longrightarrow> map_ok s \<Longrightarrow> distinct (heap s) \<Longrightarrow> adds_new_objects s xs \<Longrightarrow>
     length (results s xs) = length xs \<and>
     (\<forall>r \<in> set (results s xs). \<exists>s'. r = Inr s' \<and> heap_inv s')"
proof (induction xs arbitrary: s)
  case Nil
  then show ?case by simp
next
  case (Cons x xs)
  from Cons.prems(4) have new: "\<And>p. x = Add p \<Longrightarrow> p \<notin> set (heap s)"
    by simp
  from exec_order [OF Cons.prems(1-3) new] obtain s' where
    e: "exec s x = Inr s'" and inv: "heap_inv s'" "map_ok s'" "distinct (heap s')"
    by blast
  from Cons.prems(4) e have "adds_new_objects s' xs"
    by simp
  from Cons.IH [OF inv this] e inv(1) show ?case
    by simp
qed

lemma init_invs: "heap_inv (init ob)" "map_ok (init ob)" "slots_ok (init ob)" "distinct (heap (init ob))"
  by (simp_all add: init_def heap_inv_def map_ok_def slots_ok_def)

lemma exec_map_ok: "map_ok s \<Longrightarrow> \<exists>s'. exec s x = Inr s' \<and> map_ok s'"
proof (cases x)
  case (Add p)
  assume ok: "map_ok s"
  obtain s' where a: "add_player s p = Inr s'"
    using add_player_returns by blast
  with Add ok show ?thesis
    using add_player_map_ok [OF a] by simp
next
  case (Fold k)
  assume ok: "map_ok s"
  obtain s' where a: "fold_player s k = Inr s'"
    using fold_player_returns [OF ok] by blast
  with Fold ok show ?thesis
    using fold_player_map_ok [OF ok a] by simp
next
  case (Update k v)
  assume ok: "map_ok s"
  obtain s' where a: "update_hand_strength s k v = Inr s'"
    using update_returns [OF ok] by blast
  with Update ok show ?thesis
    using update_map_ok [OF ok a] by simp
next
  case GetWinner
  assume "map_ok s"
  with GetWinner show ?thesis by simp
qed

lemma exec_bijection:
  assumes b: "bijection_inv s"
    and new: "\<And>p. x = Add p \<Longrightarrow> position_map s (player_id (objs s p)) = None"
  shows "\<exists>s'. exec s x = Inr s' \<and> bijection_inv s'"
proof -
  from b have ok: "map_ok s" and sl: "slots_ok s"
    by (simp_all add: bijection_map_ok bijection_slots_ok)
  from exec_map_ok [OF ok] obtain s' where e: "exec s x = Inr s'" and ok': "map_ok s'"
    by blast
  have "slots_ok s'"
  proof (cases x)
    case (Add p)
    with e new [OF Add] sl show ?thesis
      using add_player_slots_ok by simp
  next
    case (Fold k)
    with e ok sl show ?thesis
      using fold_player_slots_ok by simp
  next
    case (Update k v)
    with e ok sl show ?thesis
      using update_slots_ok by simp
  next
    case GetWinner
    with e sl show ?thesis by simp
  qed
  with ok' e show ?thesis
    using bijectionI by blast
qed

lemma results_bijection:
  "bijection_inv s \<Longrightarrow> adds_new_ids s xs \<Longrightarrow>
     length (results s xs) = length xs \<and>
     (\<forall>r \<in> set (results s xs). \<exists>s'. r = Inr s' \<and> bijection_inv s')"
proof (induction xs arbitrary: s)
  case Nil
  then show ?case by simp
next
  case (Cons x xs)
  from Cons.prems(2) have new: "\<And>p. x = Add p \<Longrightarrow> position_map s (player_id (objs s p)) = None"
    by simp
  from exec_bijection [OF Cons.prems(1) new] obtain s' where
    e: "exec s x = Inr s'" and inv: "bijection_inv s'"
    by blast
  from Cons.prems(2) e have "adds_new_ids s' xs"
    by simp
  from Cons.IH [OF inv this] e inv show ?case
    by simp
qed

section \<open>The root, and the element that a sift up carries\<close>

lemma heap_inv_root_max: "heap_inv s \<Longrightarrow> i < length (heap s) \<Longrightarrow> score s i \<le> score s 0"
proof (induction i rule: less_induct)
  case (less i)
  show ?case
  proof (cases "i = 0")
    case True
    then show ?thesis by simp
  next
    case False
    then have p: "parent i < i" by (simp add: parent_less)
    with less.prems have "score s (parent i) \<le> score s 0"
      by (intro less.IH) simp_all
    moreover from less.prems False have "score s i \<le> score s (parent i)"
      by (intro heap_invD) simp_all
    ultimately show ?thesis by simp
  qed
qed

lemma results_root_max:
  assumes "adds_new_objects (init ob) xs" and r: "r \<in> set (results (init ob) xs)"
  shows "\<exists>s'. r = Inr s' \<and>
           (\<forall>p \<in> set (heap s'). hand_score (objs s' p) \<le> hand_score (objs s' (heap s' ! 0)))"
proof -
  from results_order [OF init_invs(1,2,4) assms(1)] r obtain s' where
    s': "r = Inr s'" "heap_inv s'"
    by blast
  have "hand_score (objs s' p) \<le> hand_score (objs s' (heap s' ! 0))" if "p \<in> set (heap s')" for p
  proof -
    from that obtain i where "i < length (heap s')" "heap s' ! i = p"
      unfolding in_set_conv_nth by blast
    with heap_inv_root_max [OF s'(2), of i] show ?thesis
      by (simp add: score_def)
  qed
  with s' show ?thesis by blast
qed

text \<open>
  Where a sift up leaves the element it started with: in a slot no lower than the start,
  found through the position map, and either at the root or under a parent that does not
  score less.
\<close>

lemma sift_up_settles:
  "sift_up s i = Inr s' \<Longrightarrow> i < length (heap s) \<Longrightarrow>
     position_map s (pid_at s i) = Some i \<Longrightarrow>
     \<exists>i'. i' \<le> i \<and> i' < length (heap s') \<and> heap s' ! i' = heap s ! i \<and>
          position_map s' (pid_at s i) = Some i' \<and>
          (i' = 0 \<or> score s' i' \<le> score s' (parent i'))"
proof (induction s i rule: sift_up.induct)
  case (1 s i)
  show ?case
  proof (cases "0 < i \<and> score s (parent i) < score s i")
    case True
    with "1.prems"(1,2) obtain s1 where s1: "swap s i (parent i) = Inr s1"
      and rest: "sift_up s1 (parent i) = Inr s'"
      by (subst (asm) sift_up.simps) (auto split: sum.splits)
    from True have pi: "parent i < i"
      by (simp add: parent_less)
    with "1.prems"(2) have p: "parent i < length (heap s1)"
      by (simp add: swap_length [OF s1])
    have at: "heap s1 ! parent i = heap s ! i" "pid_at s1 (parent i) = pid_at s i"
      using pi by (simp_all add: swap_nth [OF s1] swap_pid_at [OF s1])
    have "position_map s1 (pid_at s1 (parent i)) = Some (parent i)"
      by (simp add: at swap_position_map [OF s1])
    with "1.IH" [of s1] True "1.prems"(2) s1 rest p obtain i' where
      "i' \<le> parent i" "i' < length (heap s')" "heap s' ! i' = heap s1 ! parent i"
      "position_map s' (pid_at s1 (parent i)) = Some i'"
      "i' = 0 \<or> score s' i' \<le> score s' (parent i')"
      by auto
    with at pi show ?thesis
      by (intro exI [of _ i']) simp
  next
    case False
    with "1.prems" have "s' = s"
      by (subst (asm) sift_up.simps) (auto split: if_splits)
    with "1.prems" False show ?thesis
      by (intro exI [of _ i]) auto
  qed
qed

lemma other_slot:
  assumes m: "mset xs = mset ys + {#xs ! i#}" and i: "i < length xs" and b: "b \<in> set ys"
  shows "\<exists>j < length xs. j \<noteq> i \<and> xs ! j = b"
proof -
  from i have "xs = take i xs @ xs ! i # drop (Suc i) xs"
    by (rule id_take_nth_drop)
  then have "mset xs = mset (take i xs @ drop (Suc i) xs) + {#xs ! i#}"
    by (metis add_mset_add_single mset.simps(2) mset_append union_mset_add_mset_right)
  with m have "mset ys = mset (take i xs @ drop (Suc i) xs)"
    by simp
  with b have "b \<in> set (take i xs @ drop (Suc i) xs)"
    using mset_eq_setD by blast
  then consider "b \<in> set (take i xs)" | "b \<in> set (drop (Suc i) xs)"
    by auto
  then show ?thesis
  proof cases
    case 1
    then obtain j where "j < length (take i xs)" "take i xs ! j = b"
      unfolding in_set_conv_nth by blast
    with i show ?thesis
      by (intro exI [of _ j]) simp
  next
    case 2
    then obtain j where "j < length (drop (Suc i) xs)" "drop (Suc i) xs ! j = b"
      unfolding in_set_conv_nth by blast
    with i show ?thesis
      by (intro exI [of _ "Suc i + j"]) simp
  qed
qed

section \<open>A sift up followed by a sift down\<close>

text \<open>A sift up from slot \<open>i\<close> writes only slot \<open>i\<close> and slots above it.\<close>

lemma sift_up_above:
  "sift_up s i = Inr s' \<Longrightarrow> i < j \<Longrightarrow> heap s' ! j = heap s ! j"
proof (induction s i rule: sift_up.induct)
  case (1 s i)
  show ?case
  proof (cases "0 < i \<and> i < length (heap s) \<and> score s (parent i) < score s i")
    case True
    with "1.prems"(1) obtain s1 where s1: "swap s i (parent i) = Inr s1"
      and rest: "sift_up s1 (parent i) = Inr s'"
      by (subst (asm) sift_up.simps) (auto split: sum.splits)
    from True have p: "parent i < i"
      by (simp add: parent_less)
    with "1.prems"(2) have "parent i < j"
      by simp
    with "1.IH" [of s1] True s1 rest have "heap s' ! j = heap s1 ! j"
      by simp
    with p "1.prems"(2) show ?thesis
      by (simp add: swap_nth [OF s1])
  next
    case False
    with "1.prems"(1) have "s' = s"
      by (subst (asm) sift_up.simps) (auto split: if_splits)
    then show ?thesis by simp
  qed
qed

text \<open>
  When the sift up from slot \<open>i\<close> moves the element, the old parent lands in slot \<open>i\<close>; if it
  dominated the children of \<open>i\<close>, a sift down from \<open>i\<close> then has nothing to do.
\<close>

lemma sift_up_moves_then_down_noop:
  assumes i: "0 < i" "i < length (heap s)" and gt: "score s (parent i) < score s i"
    and ch: "\<And>j. j < length (heap s) \<Longrightarrow> 0 < j \<Longrightarrow> parent j = i \<Longrightarrow> score s j \<le> score s (parent i)"
    and up: "sift_up s i = Inr s3"
  shows "s3 \<noteq> s \<and> sift_down s3 i = Inr s3"
proof -
  from i gt up obtain s1 where s1: "swap s i (parent i) = Inr s1"
    and rest: "sift_up s1 (parent i) = Inr s3"
    by (subst (asm) sift_up.simps) (auto split: sum.splits)
  have p: "parent i < i"
    using i by (simp add: parent_less)
  have len: "length (heap s3) = length (heap s)"
    using sift_up_length [OF rest] swap_length [OF s1] by simp
  have o: "objs s3 = objs s"
    using sift_up_objs [OF rest] swap_objs [OF s1] by simp
  have above: "heap s3 ! j = heap s1 ! j" if "parent i < j" for j
    using sift_up_above [OF rest that] .
  have at_i: "score s3 i = score s (parent i)"
    using above [OF p] p by (simp add: score_def o swap_nth [OF s1])
  have child: "score s3 j \<le> score s3 i" if j: "j < length (heap s)" "0 < j" "parent j = i" for j
  proof -
    from j parent_less [of j] have ij: "i < j" by auto
    with p have "heap s3 ! j = heap s ! j"
      using above [of j] by (simp add: swap_nth [OF s1])
    with ch [OF j] at_i show ?thesis
      by (simp add: score_def o)
  qed
  have "max_idx s3 i = i"
  proof (rule max_idx_selfI)
    assume "left i < length (heap s3)"
    with child [of "left i"] len left_gt [of i] show "score s3 (left i) \<le> score s3 i"
      by simp
  next
    assume "right i < length (heap s3)"
    with child [of "right i"] len right_gt [of i] show "score s3 (right i) \<le> score s3 i"
      by simp
  qed
  then have "sift_down s3 i = Inr s3"
    by (rule sift_down_noop)
  moreover have "s3 \<noteq> s"
  proof
    assume "s3 = s"
    with at_i gt show False by simp
  qed
  ultimately show ?thesis by simp
qed

lemma update_strategies_agree:
  assumes h: "heap_inv s" and ok: "map_ok s" and d: "distinct (heap s)"
  shows "update_unconditional s k v = update_hand_strength s k v"
proof (cases "position_map s k")
  case None
  then show ?thesis
    by (simp add: update_unconditional_def update_absent)
next
  case (Some index)
  let ?s1 = "rescored s index v"
  from update_found [OF ok Some, of v] have i: "index < length (heap s)"
    and eq: "update_hand_strength s k v =
           (if score s index < v then sift_up ?s1 index else sift_down ?s1 index)"
    by simp_all
  from Some i have alt: "update_unconditional s k v =
      (case sift_up ?s1 index of Inl e \<Rightarrow> Inl e | Inr s2 \<Rightarrow> sift_down s2 index)"
    by (simp add: update_unconditional_def)
  have i1: "index < length (heap ?s1)"
    using i by simp
  have sc: "\<And>j. j < length (heap s) \<Longrightarrow> score ?s1 j = (if j = index then v else score s j)"
    using rescored_score [OF d i] by blast
  show ?thesis
  proof (cases "score s index < v")
    case True
    obtain s2 where up: "sift_up ?s1 index = Inr s2"
      using sift_up_returns [OF i1] by blast
    have "sift_down s2 index = Inr s2"
    proof (cases "0 < index \<and> score ?s1 (parent index) < score ?s1 index")
      case moved: True
      have "score ?s1 j \<le> score ?s1 (parent index)"
        if "j < length (heap ?s1)" "0 < j" "parent j = index" for j
        using rescored_up_inv [OF h d i True] that moved unfolding up_inv_def by blast
      from sift_up_moves_then_down_noop [OF _ i1 _ this up] moved show ?thesis
        by blast
    next
      case False
      then have "index = 0 \<or> score ?s1 index \<le> score ?s1 (parent index)"
        by auto
      with i1 have "sift_up ?s1 index = Inr ?s1"
        by (intro sift_up_noop) auto
      with up have s2: "s2 = ?s1"
        by simp
      have child: "score ?s1 j \<le> score ?s1 index" if j: "j < length (heap s)" "0 < j" "parent j = index" for j
      proof -
        from j parent_less [of j] have "j \<noteq> index" by auto
        moreover from heap_invD [OF h j(1,2)] j have "score s j \<le> score s index" by simp
        ultimately show ?thesis
          using True by (simp add: sc j(1) i)
      qed
      have "max_idx ?s1 index = index"
      proof (rule max_idx_selfI)
        assume "left index < length (heap ?s1)"
        with child [of "left index"] left_gt [of index] show "score ?s1 (left index) \<le> score ?s1 index"
          by simp
      next
        assume "right index < length (heap ?s1)"
        with child [of "right index"] right_gt [of index] show "score ?s1 (right index) \<le> score ?s1 index"
          by simp
      qed
      with s2 show ?thesis
        by (simp add: sift_down_noop)
    qed
    with up alt eq True show ?thesis
      by simp
  next
    case False
    have "index = 0 \<or> score ?s1 index \<le> score ?s1 (parent index)"
    proof (cases "index = 0")
      case True
      then show ?thesis by simp
    next
      case nz: False
      then have p: "parent index < index"
        by (simp add: parent_less)
      with i have pl: "parent index < length (heap s)" "parent index \<noteq> index"
        by simp_all
      from heap_invD [OF h i] nz have "score s index \<le> score s (parent index)"
        by simp
      with False pl show ?thesis
        by (simp add: sc i)
    qed
    with i1 have "sift_up ?s1 index = Inr ?s1"
      by (intro sift_up_noop) auto
    with alt eq False show ?thesis
      by simp
  qed
qed

lemma exec_unconditional_eq:
  "heap_inv s \<Longrightarrow> map_ok s \<Longrightarrow> distinct (heap s) \<Longrightarrow> exec_unconditional s x = exec s x"
  by (cases x) (simp_all add: update_strategies_agree)

lemma run_unconditional_eq:
  "heap_inv s \<Longrightarrow> map_ok s \<Longrightarrow> distinct (heap s) \<Longrightarrow> adds_new_objects s xs \<Longrightarrow>
     run_unconditional s xs = run s xs"
proof (induction xs arbitrary: s)
  case Nil
  then show ?case by simp
next
  case (Cons x xs)
  from Cons.prems(4) have new: "\<And>p. x = Add p \<Longrightarrow> p \<notin> set (heap s)"
    by simp
  from exec_order [OF Cons.prems(1-3) new] obtain s' where
    e: "exec s x = Inr s'" and inv: "heap_inv s'" "map_ok s'" "distinct (heap s')"
    by blast
  from Cons.prems(4) e have "adds_new_objects s' xs"
    by simp
  from Cons.IH [OF inv this] e exec_unconditional_eq [OF Cons.prems(1-3), of x] show ?case
    by simp
qed

lemma bijection_distinct: "bijection_inv s \<Longrightarrow> distinct (heap s)"
  unfolding bijection_inv_def using distinct_map by blast

lemma fold_rebalance_general:
  assumes h: "heap_inv s" and ok: "map_ok s" and look: "position_map s k = Some index"
    and idx: "index < length (heap s) - 1"
  shows "\<exists>s1 s3 s'. swap s index (length (heap s) - 1) = Inr s1 \<and>
           sift_up (popped s1 k) index = Inr s3 \<and> sift_down s3 index = Inr s' \<and>
           fold_player s k = Inr s' \<and> (s3 = popped s1 k \<or> s' = s3)"
proof -
  from fold_player_found [OF ok look] obtain s1 where
    sw: "swap s index (length (heap s) - 1) = Inr s1" and
    eq0: "fold_player s k =
             (if index < length (heap s) - 1 then
                (case sift_up (popped s1 k) index of
                   Inl e \<Rightarrow> Inl e
                 | Inr s3 \<Rightarrow> sift_down s3 index)
              else Inr (popped s1 k))"
    by blast
  from eq0 idx have
    eq: "fold_player s k =
                (case sift_up (popped s1 k) index of
                   Inl e \<Rightarrow> Inl e
                 | Inr s3 \<Rightarrow> sift_down s3 index)"
    by simp
  let ?s2 = "popped s1 k"
  have i2: "index < length (heap ?s2)"
    using idx by (simp add: swap_length [OF sw])
  obtain s3 where up: "sift_up ?s2 index = Inr s3"
    using sift_up_returns [OF i2] by blast
  obtain s' where down: "sift_down s3 index = Inr s'"
    using sift_down_returns by blast
  have "s3 = ?s2 \<or> s' = s3"
  proof (cases "0 < index \<and> score ?s2 (parent index) < score ?s2 index")
    case True
    have "score ?s2 j \<le> score ?s2 (parent index)"
      if "j < length (heap ?s2)" "0 < j" "parent j = index" for j
      using popped_up_inv [OF h sw idx, of k] that True unfolding up_inv_def by blast
    from sift_up_moves_then_down_noop [OF _ i2 _ this up] True
    have "sift_down s3 index = Inr s3"
      by blast
    with down have "s' = s3"
      by simp
    then show ?thesis ..
  next
    case False
    then have "index = 0 \<or> score ?s2 index \<le> score ?s2 (parent index)"
      by auto
    with i2 have "sift_up ?s2 index = Inr ?s2"
      by (intro sift_up_noop) auto
    with up show ?thesis
      by simp
  qed
  moreover from eq up down have "fold_player s k = Inr s'"
    by simp
  ultimately show ?thesis
    using sw up down by blast
qed

section \<open>Filling and draining\<close>

lemma run_adds:
  "heap_inv s \<Longrightarrow> map_ok s \<Longrightarrow> slots_ok s \<Longrightarrow>
   distinct (map (\<lambda>p. player_id (objs s p)) (heap s @ ps)) \<Longrightarrow>
     \<exists>s'. run s (map Add ps) = Inr s' \<and> heap_inv s' \<and> map_ok s' \<and> slots_ok s' \<and>
          objs s' = objs s \<and> mset (heap s') = mset (heap s) + mset ps"
proof (induction ps arbitrary: s)
  case Nil
  then show ?case by simp
next
  case (Cons p ps)
  let ?f = "\<lambda>p. player_id (objs s p)"
  have fresh: "position_map s (?f p) = None"
  proof (rule ccontr)
    assume "position_map s (?f p) \<noteq> None"
    then obtain i where "position_map s (?f p) = Some i"
      by blast
    with Cons.prems(2) have "i < length (heap s)" "pid_at s i = ?f p"
      unfolding map_ok_def by blast+
    then have "?f p \<in> set (map ?f (heap s))"
      unfolding pid_at_def by (metis length_map nth_map nth_mem)
    with Cons.prems(4) show False
      by auto
  qed
  obtain s1 where a: "add_player s p = Inr s1"
    using add_player_returns by blast
  have inv1: "heap_inv s1" "map_ok s1" "slots_ok s1"
    using add_player_heap_inv [OF a Cons.prems(1)] add_player_map_ok [OF a Cons.prems(2)]
      add_player_slots_ok [OF a Cons.prems(3) fresh] by simp_all
  have o1: "objs s1 = objs s"
    using a by (rule add_player_objs)
  have m1: "mset (heap s1) = mset (heap s) + {#p#}"
    using a by (rule add_player_mset)
  then have "mset (heap s1 @ ps) = mset (heap s @ p # ps)"
    by simp
  then have "mset (map ?f (heap s1 @ ps)) = mset (map ?f (heap s @ p # ps))"
    by (metis mset_map)
  from mset_distinct [OF this [symmetric] Cons.prems(4)]
  have "distinct (map (\<lambda>p. player_id (objs s1 p)) (heap s1 @ ps))"
    by (simp add: o1)
  from Cons.IH [OF inv1 this] obtain s' where
    "run s1 (map Add ps) = Inr s'" "heap_inv s'" "map_ok s'" "slots_ok s'"
    "objs s' = objs s1" "mset (heap s') = mset (heap s1) + mset ps"
    by blast
  with a o1 m1 show ?case
    by simp
qed

lemma drain_descending:
  "heap_inv s \<Longrightarrow> map_ok s \<Longrightarrow> slots_ok s \<Longrightarrow> length (heap s) = n \<Longrightarrow>
     \<exists>out s'. drain n s = Inr (out, s') \<and> heap s' = [] \<and> mset out = mset (heap s) \<and>
        sorted_wrt (\<lambda>a b. hand_score (objs s b) \<le> hand_score (objs s a)) out"
proof (induction n arbitrary: s)
  case 0
  then show ?case by simp
next
  case (Suc n)
  from Suc.prems(4) have ne: "heap s \<noteq> []" and l0: "0 < length (heap s)"
    by auto
  let ?w = "heap s ! 0"
  let ?k = "player_id (objs s ?w)"
  have gw: "get_winner s = Some ?w"
    using ne by (simp add: get_winner_def)
  from Suc.prems(3) l0 have look: "position_map s ?k = Some 0"
    unfolding slots_ok_def pid_at_def by blast
  from fold_player_present [OF Suc.prems(2) look] obtain s1 where
    f: "fold_player s ?k = Inr s1" and o1: "objs s1 = objs s" and
    m1: "mset (heap s) = mset (heap s1) + {#?w#}" and ok1: "map_ok s1" and sl1: "slots_ok s1"
    using Suc.prems(3) by blast
  have h1: "heap_inv s1"
    using f Suc.prems(1,2) by (rule fold_player_heap_inv)
  from m1 have "size (mset (heap s)) = size (mset (heap s1) + {#?w#})"
    by simp
  with Suc.prems(4) have len1: "length (heap s1) = n"
    by simp
  from Suc.IH [OF h1 ok1 sl1 len1] obtain out s' where
    d: "drain n s1 = Inr (out, s')" and e: "heap s' = []" and mo: "mset out = mset (heap s1)"
    and so: "sorted_wrt (\<lambda>a b. hand_score (objs s1 b) \<le> hand_score (objs s1 a)) out"
    by blast
  have top: "hand_score (objs s a) \<le> hand_score (objs s ?w)" if "a \<in> set out" for a
  proof -
    from that mo have "a \<in># mset (heap s1)"
      by (metis set_mset_mset)
    with m1 have "a \<in> set (heap s)"
      by (metis set_mset_mset union_iff)
    then obtain i where "i < length (heap s)" "heap s ! i = a"
      unfolding in_set_conv_nth by blast
    with heap_inv_root_max [OF Suc.prems(1), of i] show ?thesis
      by (simp add: score_def)
  qed
  have "drain (Suc n) s = Inr (?w # out, s')"
    using gw f d by simp
  moreover have "mset (?w # out) = mset (heap s)"
    using mo m1 by simp
  moreover have "sorted_wrt (\<lambda>a b. hand_score (objs s b) \<le> hand_score (objs s a)) (?w # out)"
    using so top by (simp add: o1)
  ultimately show ?case
    using e by blast
qed

lemma sorted_wrt_strict:
  "sorted_wrt (\<lambda>a b. f b \<le> f a) xs \<Longrightarrow> distinct (map f xs) \<Longrightarrow>
     sorted_wrt (\<lambda>a b. (f b :: int) < f a) xs"
proof (induction xs)
  case Nil
  then show ?case by simp
next
  case (Cons a xs)
  have "f x < f a" if "x \<in> set xs" for x
  proof -
    from Cons.prems(1) that have "f x \<le> f a" by simp
    moreover from Cons.prems(2) have "f a \<notin> f ` set xs" by simp
    with that have "f x \<noteq> f a" by (metis imageI)
    ultimately show ?thesis by simp
  qed
  with Cons show ?case by simp
qed

text \<open>The equations that evaluate a concrete run.\<close>

lemmas run_eval =
  add_player_def fold_player_def update_hand_strength_def get_winner_def
  sift_up.simps sift_down.simps swap_def max_idx_def Let_def init_def mem_def P_def
  score_def pid_at_def parent_def left_def right_def

section \<open>The example states\<close>

lemma three_state_invs:
  "heap_inv three_state" "map_ok three_state" "slots_ok three_state"
  by (auto simp: three_state_def heap_inv_def map_ok_def slots_ok_def score_def pid_at_def
      parent_def mem_def P_def less_Suc_eq split: if_splits)

section \<open>The partial loops return\<close>

lemma sift_up_loop_returns: "sift_up_loop s i = Some (sift_up s i)"
proof (induction s i rule: sift_up.induct)
  case (1 s i)
  show ?case
  proof (cases "0 < i \<and> i < length (heap s) \<and> score s (parent i) < score s i")
    case True
    show ?thesis
    proof (cases "swap s i (parent i)")
      case (Inl e)
      with True show ?thesis
        by (subst sift_up_loop.simps, subst sift_up.simps) simp
    next
      case (Inr s1)
      with "1.IH" [of s1] True have "sift_up_loop s1 (parent i) = Some (sift_up s1 (parent i))"
        by simp
      with True Inr show ?thesis
        by (subst sift_up_loop.simps, subst sift_up.simps) simp
    qed
  next
    case False
    then show ?thesis
      by (subst sift_up_loop.simps, subst sift_up.simps) auto
  qed
qed

lemma sift_down_rec_returns: "sift_down_rec s i = Some (sift_down s i)"
proof (induction s i rule: sift_down.induct)
  case (1 s i)
  show ?case
  proof (cases "i = max_idx s i")
    case True
    then show ?thesis
      by (subst sift_down_rec.simps, subst sift_down.simps) simp
  next
    case False
    show ?thesis
    proof (cases "swap s i (max_idx s i)")
      case (Inl e)
      with False show ?thesis
        by (subst sift_down_rec.simps, subst sift_down.simps) simp
    next
      case (Inr s1)
      with "1.IH" [of s1] False have "sift_down_rec s1 (max_idx s i) = Some (sift_down s1 (max_idx s i))"
        by simp
      with False Inr show ?thesis
        by (subst sift_down_rec.simps, subst sift_down.simps) simp
    qed
  qed
qed

lemma add_player_run_returns: "add_player_run s p = Some (add_player s p)"
  by (simp add: add_player_run_def add_player_def sift_up_loop_returns Let_def)

lemma fold_player_run_returns: "fold_player_run s k = Some (fold_player s k)"
  by (simp add: fold_player_run_def fold_player_def sift_up_loop_returns sift_down_rec_returns
      Let_def split: option.splits sum.splits)

lemma update_hand_strength_run_returns:
  "update_hand_strength_run s k v = Some (update_hand_strength s k v)"
  by (simp add: update_hand_strength_run_def update_hand_strength_def sift_up_loop_returns
      sift_down_rec_returns Let_def split: option.splits)

section \<open>The heap order (C1)\<close>

text \<open>
  C1, as amended. Start from the empty structure and run any sequence of calls of
  \<^verbatim>\<open>add_player\<close>, \<^verbatim>\<open>fold_player\<close>, \<^verbatim>\<open>update_hand_strength\<close> and \<^verbatim>\<open>get_winner\<close> in which
  no \<^verbatim>\<open>add_player\<close> is given a \<^verbatim>\<open>Player\<close> object that the heap array already holds. Then
  every call returns, and in the state each call returns the score of every slot but the
  root is at most the score of its parent slot.
\<close>

theorem heap_order_after_each_call:
  "adds_new_objects (init ob) xs \<Longrightarrow>
     length (results (init ob) xs) = length xs \<and>
     (\<forall>r \<in> set (results (init ob) xs). \<exists>s. r = Inr s \<and> heap_inv s)"
  using results_order [OF init_invs(1,2,4)] by blast

theorem heap_order_after_each_call_witness:
  "adds_new_objects (init (mem [P 1 100, P 2 500, P 1 300, P 4 200]))
     [Add 0, Add 1, Add 2, Add 3, Update 1 850, Fold 4, GetWinner, Update 1 900] \<and>
   length (results (init (mem [P 1 100, P 2 500, P 1 300, P 4 200]))
     [Add 0, Add 1, Add 2, Add 3, Update 1 850, Fold 4, GetWinner, Update 1 900]) = 8 \<and>
   list_all (\<lambda>r. \<exists>s. r = Inr s \<and> heap_inv s)
     (results (init (mem [P 1 100, P 2 500, P 1 300, P 4 200]))
        [Add 0, Add 1, Add 2, Add 3, Update 1 850, Fold 4, GetWinner, Update 1 900])"
proof -
  have h: "adds_new_objects (init (mem [P 1 100, P 2 500, P 1 300, P 4 200]))
     [Add 0, Add 1, Add 2, Add 3, Update 1 850, Fold 4, GetWinner, Update 1 900]"
    by (simp add: run_eval)
  from heap_order_after_each_call [OF h] h show ?thesis
    unfolding list_all_iff by simp
qed

text \<open>
  The witness above adds two different objects with the same id 1: the condition is on
  objects, not on ids. The claim as stated fails when the same object is added twice: both slots then share
  one score, and the update re-sorts only the slot the position map points to. Here the
  heap array ends as the objects 0, 1, 2, 1 with scores 5, 10, 3, 10, so slot 1 outranks
  the root.
\<close>

theorem heap_order_counterexample:
  "\<not> isl (run (init (mem [P 2 5, P 1 1, P 3 3])) [Add 0, Add 1, Add 2, Add 1, Update 1 10]) \<and>
   \<not> heap_inv (projr (run (init (mem [P 2 5, P 1 1, P 3 3])) [Add 0, Add 1, Add 2, Add 1, Update 1 10]))"
proof
  show "\<not> isl (run (init (mem [P 2 5, P 1 1, P 3 3])) [Add 0, Add 1, Add 2, Add 1, Update 1 10])"
    by (simp add: run_eval)
next
  let ?s = "projr (run (init (mem [P 2 5, P 1 1, P 3 3])) [Add 0, Add 1, Add 2, Add 1, Update 1 10])"
  show "\<not> heap_inv ?s"
  proof
    assume "heap_inv ?s"
    then have "score ?s 1 \<le> score ?s (parent 1)"
      by (rule heap_invD) (simp_all add: run_eval)
    then show False
      by (simp add: run_eval)
  qed
qed

section \<open>The position map (C2)\<close>

text \<open>
  C2, as amended. Start from the empty structure and run any sequence of calls in which
  no \<^verbatim>\<open>add_player\<close> is given a player whose id is a key of the position map at that
  moment. Then every call returns, and in the state each call returns the position map
  sends the id stored in each slot to that slot, its keys are exactly the ids stored in
  the heap array, and no id is stored twice.
\<close>

theorem bijection_after_each_call:
  "adds_new_ids (init ob) xs \<Longrightarrow>
     length (results (init ob) xs) = length xs \<and>
     (\<forall>r \<in> set (results (init ob) xs). \<exists>s. r = Inr s \<and> bijection_inv s)"
  using results_bijection [OF bijectionI [OF init_invs(2,3)]] by blast

theorem bijection_after_each_call_witness:
  "adds_new_ids (init (mem [P 1 100, P 2 500, P 3 300, P 4 200]))
     [Add 0, Add 1, Add 2, Add 3, Update 1 850, Fold 4, GetWinner, Update 3 900] \<and>
   length (results (init (mem [P 1 100, P 2 500, P 3 300, P 4 200]))
     [Add 0, Add 1, Add 2, Add 3, Update 1 850, Fold 4, GetWinner, Update 3 900]) = 8 \<and>
   list_all (\<lambda>r. \<exists>s. r = Inr s \<and> bijection_inv s)
     (results (init (mem [P 1 100, P 2 500, P 3 300, P 4 200]))
        [Add 0, Add 1, Add 2, Add 3, Update 1 850, Fold 4, GetWinner, Update 3 900])"
proof -
  have h: "adds_new_ids (init (mem [P 1 100, P 2 500, P 3 300, P 4 200]))
     [Add 0, Add 1, Add 2, Add 3, Update 1 850, Fold 4, GetWinner, Update 3 900]"
    by (simp add: run_eval)
  from bijection_after_each_call [OF h] h show ?thesis
    unfolding list_all_iff by simp
qed

text \<open>
  The claim as stated fails when a second player with a present id is added: the key is
  overwritten, so slot 0 still stores id 1 while the map sends id 1 to slot 1.
\<close>

theorem bijection_counterexample:
  "\<not> isl (run (init (mem [P 1 5, P 1 3])) [Add 0, Add 1]) \<and>
   \<not> bijection_inv (projr (run (init (mem [P 1 5, P 1 3])) [Add 0, Add 1]))"
proof
  show "\<not> isl (run (init (mem [P 1 5, P 1 3])) [Add 0, Add 1])"
    by (simp add: run_eval)
next
  let ?s = "projr (run (init (mem [P 1 5, P 1 3])) [Add 0, Add 1])"
  show "\<not> bijection_inv ?s"
  proof
    assume "bijection_inv ?s"
    then have "distinct (map (\<lambda>p. player_id (objs ?s p)) (heap ?s))"
      unfolding bijection_inv_def by blast
    then show False
      by (simp add: run_eval)
  qed
qed

section \<open>No error values (C3)\<close>

text \<open>
  C3, as amended. \<^verbatim>\<open>add_player\<close> never fails, whether or not the id is already present:
  it always returns normally (what it then does to the structure is C10). A call of
  \<^verbatim>\<open>fold_player\<close> or \<^verbatim>\<open>update_hand_strength\<close> with an absent id returns normally too, with
  the structure unchanged: no error value is produced, the call is a silent no-op.
\<close>

theorem no_error_values:
  "(\<exists>s'. add_player s p = Inr s') \<and>
   (position_map s k = None \<longrightarrow> fold_player s k = Inr s \<and> update_hand_strength s k v = Inr s)"
  using add_player_returns [of s p] by (simp add: fold_player_absent update_absent)

theorem no_error_values_witness:
  "(\<exists>s'. add_player \<lparr>objs = mem [P 1 100, P 1 50], heap = [0], position_map = [1 \<mapsto> 0]\<rparr> 1 = Inr s') \<and>
   position_map \<lparr>objs = mem [P 1 100, P 1 50], heap = [0], position_map = [1 \<mapsto> 0]\<rparr> 7 = None \<and>
   fold_player \<lparr>objs = mem [P 1 100, P 1 50], heap = [0], position_map = [1 \<mapsto> 0]\<rparr> 7 =
     Inr \<lparr>objs = mem [P 1 100, P 1 50], heap = [0], position_map = [1 \<mapsto> 0]\<rparr> \<and>
   update_hand_strength \<lparr>objs = mem [P 1 100, P 1 50], heap = [0], position_map = [1 \<mapsto> 0]\<rparr> 7 250 =
     Inr \<lparr>objs = mem [P 1 100, P 1 50], heap = [0], position_map = [1 \<mapsto> 0]\<rparr>"
  using no_error_values
    [of "\<lparr>objs = mem [P 1 100, P 1 50], heap = [0], position_map = [1 \<mapsto> 0]\<rparr>" 1 7 250]
  by simp

text \<open>
  The claim as stated fails on each of its three parts: with id 1 present and id 7 absent,
  adding a second player with id 1 returns a state and not an error, and folding or
  updating id 7 returns the unchanged state and not an error.
\<close>

theorem no_error_values_counterexample:
  "\<not> isl (add_player \<lparr>objs = mem [P 1 100, P 1 50], heap = [0], position_map = [1 \<mapsto> 0]\<rparr> 1) \<and>
   \<not> isl (fold_player \<lparr>objs = mem [P 1 100, P 1 50], heap = [0], position_map = [1 \<mapsto> 0]\<rparr> 7) \<and>
   \<not> isl (update_hand_strength \<lparr>objs = mem [P 1 100, P 1 50], heap = [0], position_map = [1 \<mapsto> 0]\<rparr> 7 250)"
  by (simp add: run_eval)

section \<open>The winner (C4)\<close>

text \<open>
  C4, as amended. \<^verbatim>\<open>get_winner\<close> changes nothing, and on every state it returns nothing
  when the heap array is empty and the element in the root slot otherwise. The score of
  that element is at least the score of every element in the array whenever the state
  satisfies the heap order; in particular in every state returned along a sequence of
  calls, from the empty structure, in which no \<^verbatim>\<open>add_player\<close> is given an object that the
  heap array already holds.
\<close>

theorem get_winner_max:
  "exec s GetWinner = Inr s \<and>
   (heap s = [] \<longrightarrow> get_winner s = None) \<and>
   (heap s \<noteq> [] \<longrightarrow> get_winner s = Some (heap s ! 0)) \<and>
   (heap_inv s \<longrightarrow>
      (\<forall>p \<in> set (heap s). hand_score (objs s p) \<le> hand_score (objs s (heap s ! 0)))) \<and>
   (adds_new_objects (init ob) xs \<longrightarrow>
      (\<forall>r \<in> set (results (init ob) xs). \<exists>s'. r = Inr s' \<and>
         (\<forall>p \<in> set (heap s'). hand_score (objs s' p) \<le> hand_score (objs s' (heap s' ! 0)))))"
proof -
  have "hand_score (objs s p) \<le> hand_score (objs s (heap s ! 0))"
    if h: "heap_inv s" and p: "p \<in> set (heap s)" for p
  proof -
    from p obtain i where "i < length (heap s)" "heap s ! i = p"
      unfolding in_set_conv_nth by blast
    with heap_inv_root_max [OF h, of i] show ?thesis
      by (simp add: score_def)
  qed
  moreover have "\<forall>r \<in> set (results (init ob) xs). \<exists>s'. r = Inr s' \<and>
         (\<forall>p \<in> set (heap s'). hand_score (objs s' p) \<le> hand_score (objs s' (heap s' ! 0)))"
    if "adds_new_objects (init ob) xs"
    using results_root_max [OF that] by blast
  ultimately show ?thesis
    by (simp add: get_winner_def)
qed

theorem get_winner_max_witness:
  "heap_inv three_state \<and> get_winner three_state = Some 0 \<and>
   exec three_state GetWinner = Inr three_state \<and>
   list_all (\<lambda>p. hand_score (objs three_state p) \<le> hand_score (objs three_state 0))
     (heap three_state) \<and>
   adds_new_objects (init (mem [P 1 100, P 2 500, P 1 300, P 4 200]))
     [Add 0, Add 1, Add 2, Add 3, Update 1 850, Fold 4, GetWinner, Update 1 900] \<and>
   list_all (\<lambda>r. \<exists>s'. r = Inr s' \<and>
         (\<forall>p \<in> set (heap s'). hand_score (objs s' p) \<le> hand_score (objs s' (heap s' ! 0))))
     (results (init (mem [P 1 100, P 2 500, P 1 300, P 4 200]))
        [Add 0, Add 1, Add 2, Add 3, Update 1 850, Fold 4, GetWinner, Update 1 900])"
proof -
  have h: "adds_new_objects (init (mem [P 1 100, P 2 500, P 1 300, P 4 200]))
     [Add 0, Add 1, Add 2, Add 3, Update 1 850, Fold 4, GetWinner, Update 1 900]"
    by (simp add: run_eval)
  have ne: "heap three_state \<noteq> []" "heap three_state ! 0 = 0"
    by (simp_all add: three_state_def)
  from get_winner_max [of three_state "mem [P 1 100, P 2 500, P 1 300, P 4 200]"
      "[Add 0, Add 1, Add 2, Add 3, Update 1 850, Fold 4, GetWinner, Update 1 900]"]
    three_state_invs(1) h ne
  show ?thesis
    unfolding list_all_iff by simp
qed

text \<open>
  The claim as stated, for every structure the code can build, fails after the same
  object is added twice and updated: the array ends as the objects 0, 1, 2, 1 with scores
  5, 10, 3, 10, and \<^verbatim>\<open>get_winner\<close> returns object 0, of score 5, while object 1 scores 10.
\<close>

theorem get_winner_max_counterexample:
  "\<not> isl (run (init (mem [P 2 5, P 1 1, P 3 3])) [Add 0, Add 1, Add 2, Add 1, Update 1 10]) \<and>
   get_winner (projr (run (init (mem [P 2 5, P 1 1, P 3 3]))
     [Add 0, Add 1, Add 2, Add 1, Update 1 10])) = Some 0 \<and>
   hand_score (objs (projr (run (init (mem [P 2 5, P 1 1, P 3 3]))
     [Add 0, Add 1, Add 2, Add 1, Update 1 10])) 0) = 5 \<and>
   heap (projr (run (init (mem [P 2 5, P 1 1, P 3 3]))
     [Add 0, Add 1, Add 2, Add 1, Update 1 10])) ! 1 = 1 \<and>
   hand_score (objs (projr (run (init (mem [P 2 5, P 1 1, P 3 3]))
     [Add 0, Add 1, Add 2, Add 1, Update 1 10])) 1) = 10"
  by (simp add: run_eval)

section \<open>Absent ids (C5)\<close>

text \<open>
  C5. A call of \<^verbatim>\<open>fold_player\<close> or of \<^verbatim>\<open>update_hand_strength\<close> with an id that is not a
  key of the position map returns with the object memory, the heap array and the position
  map all unchanged.
\<close>

theorem absent_id_unchanged:
  "position_map s k = None \<Longrightarrow>
     fold_player s k = Inr s \<and> update_hand_strength s k v = Inr s"
  by (simp add: fold_player_def update_hand_strength_def)

theorem absent_id_unchanged_witness:
  "position_map \<lparr>objs = mem [P 1 100], heap = [0], position_map = [1 \<mapsto> 0]\<rparr> 7 = None \<and>
   fold_player \<lparr>objs = mem [P 1 100], heap = [0], position_map = [1 \<mapsto> 0]\<rparr> 7 =
     Inr \<lparr>objs = mem [P 1 100], heap = [0], position_map = [1 \<mapsto> 0]\<rparr> \<and>
   update_hand_strength \<lparr>objs = mem [P 1 100], heap = [0], position_map = [1 \<mapsto> 0]\<rparr> 7 250 =
     Inr \<lparr>objs = mem [P 1 100], heap = [0], position_map = [1 \<mapsto> 0]\<rparr>"
  using absent_id_unchanged
    [of "\<lparr>objs = mem [P 1 100], heap = [0], position_map = [1 \<mapsto> 0]\<rparr>" 7 250]
  by simp

section \<open>The rebalance of a removal (C6)\<close>

text \<open>
  C6, as amended. Let the structure satisfy the heap order and let the position map be
  sound. When \<^verbatim>\<open>fold_player\<close> removes a slot that is not the last one, it swaps the slot
  with the last, pops, deletes the key, then runs a sift up followed by a sift down from
  that slot, and at most one of the two sifts changes anything: either the sift up
  returns the state it was given, or the sift down does.
\<close>

theorem fold_rebalance:
  assumes "heap_inv s" and "map_ok s" and "position_map s k = Some index"
    and "index < length (heap s) - 1"
  shows "\<exists>s1 s3 s'. swap s index (length (heap s) - 1) = Inr s1 \<and>
           sift_up (popped s1 k) index = Inr s3 \<and> sift_down s3 index = Inr s' \<and>
           fold_player s k = Inr s' \<and> (s3 = popped s1 k \<or> s' = s3)"
  using assms by (rule fold_rebalance_general)

theorem fold_rebalance_witness:
  "heap_inv three_state \<and> map_ok three_state \<and> position_map three_state 2 = Some 1 \<and>
   1 < length (heap three_state) - 1 \<and>
   (\<exists>s1 s3 s'. swap three_state 1 (length (heap three_state) - 1) = Inr s1 \<and>
           sift_up (popped s1 2) 1 = Inr s3 \<and> sift_down s3 1 = Inr s' \<and>
           fold_player three_state 2 = Inr s' \<and> (s3 = popped s1 2 \<or> s' = s3))"
proof -
  have h: "position_map three_state 2 = Some 1" "1 < length (heap three_state) - 1"
    by (simp_all add: three_state_def)
  from fold_rebalance [OF three_state_invs(1,2) h] three_state_invs(1,2) h show ?thesis
    by (intro conjI)
qed

text \<open>
  The claim as stated says that exactly one of the two sifts moves the survivor. Here
  neither does: removing id 2 from slot 1 of the heap 5, 3, 4 puts the survivor 4 into
  slot 1, below its parent 5 and with no children.
\<close>

theorem fold_rebalance_counterexample:
  "position_map three_state 2 = Some 1 \<and> 1 < length (heap three_state) - 1 \<and>
   sift_up (popped (projr (swap three_state 1 2)) 2) 1 = Inr (popped (projr (swap three_state 1 2)) 2) \<and>
   sift_down (popped (projr (swap three_state 1 2)) 2) 1 = Inr (popped (projr (swap three_state 1 2)) 2) \<and>
   fold_player three_state 2 = Inr (popped (projr (swap three_state 1 2)) 2)"
  by (simp add: three_state_def popped_def run_eval)

section \<open>The two strategies of an update (C7)\<close>

text \<open>
  C7, as amended. On every state that satisfies the heap order, whose position map is
  sound and whose heap array holds no object twice, and for every id and new score, the
  directional \<^verbatim>\<open>update_hand_strength\<close> of the source and the unconditional alternative of
  the specification return the same result: the same heap array, position map and
  objects. Hence for every sequence of calls, from the empty structure, in which no
  \<^verbatim>\<open>add_player\<close> is given an object that the heap array already holds, the run with
  unconditional updates and the run of the source return the same result.
\<close>

theorem update_strategies_equivalent:
  "(heap_inv s \<and> map_ok s \<and> distinct (heap s) \<longrightarrow>
      update_unconditional s k v = update_hand_strength s k v) \<and>
   (adds_new_objects (init ob) xs \<longrightarrow> run_unconditional (init ob) xs = run (init ob) xs)"
  using update_strategies_agree [of s k v] run_unconditional_eq [OF init_invs(1,2,4), of ob xs]
  by blast

theorem update_strategies_equivalent_witness:
  "heap_inv three_state \<and> map_ok three_state \<and> distinct (heap three_state) \<and>
   update_unconditional three_state 2 9 = update_hand_strength three_state 2 9 \<and>
   adds_new_objects (init (mem [P 1 100, P 2 500, P 1 300, P 4 200]))
     [Add 0, Add 1, Add 2, Add 3, Update 1 850, Fold 4, GetWinner, Update 1 900] \<and>
   run_unconditional (init (mem [P 1 100, P 2 500, P 1 300, P 4 200]))
     [Add 0, Add 1, Add 2, Add 3, Update 1 850, Fold 4, GetWinner, Update 1 900] =
   run (init (mem [P 1 100, P 2 500, P 1 300, P 4 200]))
     [Add 0, Add 1, Add 2, Add 3, Update 1 850, Fold 4, GetWinner, Update 1 900]"
proof -
  have h: "adds_new_objects (init (mem [P 1 100, P 2 500, P 1 300, P 4 200]))
     [Add 0, Add 1, Add 2, Add 3, Update 1 850, Fold 4, GetWinner, Update 1 900]"
    by (simp add: run_eval)
  have d: "distinct (heap three_state)"
    by (simp add: three_state_def)
  from update_strategies_equivalent [of three_state 2 9
      "mem [P 1 100, P 2 500, P 1 300, P 4 200]"
      "[Add 0, Add 1, Add 2, Add 3, Update 1 850, Fold 4, GetWinner, Update 1 900]"]
    three_state_invs(1,2) d h
  show ?thesis
    by (intro conjI) blast+
qed

text \<open>
  The claim as stated, for every state and every sequence, fails where one object sits in
  two slots. After object 1 is added twice, the state before the last update satisfies
  the heap order and id 1 is present; the overwrite raises both slots, the sift up moves
  the parent down between them, and only the unconditional sift down repairs that. The
  two runs end with different arrays.
\<close>

theorem update_strategies_counterexample:
  "\<not> isl (run (init (mem [P 2 5, P 1 1, P 3 20]))
      [Add 0, Add 1, Add 1, Update 1 10, Add 2, Update 1 50]) \<and>
   \<not> isl (run_unconditional (init (mem [P 2 5, P 1 1, P 3 20]))
      [Add 0, Add 1, Add 1, Update 1 10, Add 2, Update 1 50]) \<and>
   heap (projr (run (init (mem [P 2 5, P 1 1, P 3 20]))
      [Add 0, Add 1, Add 1, Update 1 10, Add 2, Update 1 50])) = [1, 2, 0, 1] \<and>
   heap (projr (run_unconditional (init (mem [P 2 5, P 1 1, P 3 20]))
      [Add 0, Add 1, Add 1, Update 1 10, Add 2, Update 1 50])) = [1, 1, 0, 2] \<and>
   position_map (projr (run (init (mem [P 2 5, P 1 1, P 3 20]))
      [Add 0, Add 1, Add 1, Update 1 10, Add 2])) 1 = Some 1 \<and>
   heap (projr (update_hand_strength
      (projr (run (init (mem [P 2 5, P 1 1, P 3 20])) [Add 0, Add 1, Add 1, Update 1 10, Add 2]))
      1 50)) = [1, 2, 0, 1] \<and>
   heap (projr (update_unconditional
      (projr (run (init (mem [P 2 5, P 1 1, P 3 20])) [Add 0, Add 1, Add 1, Update 1 10, Add 2]))
      1 50)) = [1, 1, 0, 2]"
  by (simp add: run_eval update_unconditional_def rescored_def)

section \<open>The round trip (C8)\<close>

text \<open>
  C8, as amended. Take any players with pairwise distinct ids and pairwise distinct
  scores, and add them all to the empty structure. Then reading the winner and folding the winner's id,
  as many times as there are players, never fails, empties the heap array, and yields
  every player exactly once, in strictly descending order of score.
\<close>

theorem round_trip:
  assumes ids: "distinct (map (\<lambda>p. player_id (ob p)) ps)"
    and scores: "distinct (map (\<lambda>p. hand_score (ob p)) ps)"
  shows "\<exists>s out s'. run (init ob) (map Add ps) = Inr s \<and>
           drain (length ps) s = Inr (out, s') \<and> heap s' = [] \<and> mset out = mset ps \<and>
           sorted_wrt (\<lambda>a b. hand_score (ob b) < hand_score (ob a)) out"
proof -
  from ids have "distinct (map (\<lambda>p. player_id (objs (init ob) p)) (heap (init ob) @ ps))"
    by (simp add: init_def)
  from run_adds [OF init_invs(1-3) this] obtain s where
    r: "run (init ob) (map Add ps) = Inr s" and inv: "heap_inv s" "map_ok s" "slots_ok s"
    and o: "objs s = ob" and m: "mset (heap s) = mset ps"
    by (auto simp: init_def)
  from m have "size (mset (heap s)) = size (mset ps)"
    by simp
  then have "length (heap s) = length ps"
    by simp
  from drain_descending [OF inv this] obtain out s' where
    d: "drain (length ps) s = Inr (out, s')" and e: "heap s' = []"
    and mo: "mset out = mset (heap s)"
    and so: "sorted_wrt (\<lambda>a b. hand_score (ob b) \<le> hand_score (ob a)) out"
    unfolding o by blast
  from mo m have "mset (map (\<lambda>p. hand_score (ob p)) ps) = mset (map (\<lambda>p. hand_score (ob p)) out)"
    by simp
  from mset_distinct [OF this scores] have "distinct (map (\<lambda>p. hand_score (ob p)) out)" .
  with so have "sorted_wrt (\<lambda>a b. hand_score (ob b) < hand_score (ob a)) out"
    by (rule sorted_wrt_strict)
  with r d e mo m show ?thesis
    by auto
qed

theorem round_trip_witness:
  "distinct (map (\<lambda>p. player_id (mem [P 1 100, P 2 500, P 3 300, P 4 200] p)) [0, 1, 2, 3]) \<and>
   distinct (map (\<lambda>p. hand_score (mem [P 1 100, P 2 500, P 3 300, P 4 200] p)) [0, 1, 2, 3]) \<and>
   (\<exists>s out s'. run (init (mem [P 1 100, P 2 500, P 3 300, P 4 200])) (map Add [0, 1, 2, 3]) = Inr s \<and>
           drain (length [0, 1, 2, 3 :: nat]) s = Inr (out, s') \<and> heap s' = [] \<and>
           mset out = mset [0, 1, 2, 3] \<and>
           sorted_wrt (\<lambda>a b. hand_score (mem [P 1 100, P 2 500, P 3 300, P 4 200] b)
                             < hand_score (mem [P 1 100, P 2 500, P 3 300, P 4 200] a)) out) \<and>
   fst (projr (drain 4 (projr (run (init (mem [P 1 100, P 2 500, P 3 300, P 4 200]))
                                  (map Add [0, 1, 2, 3]))))) = [1, 2, 3, 0]"
proof -
  have h: "distinct (map (\<lambda>p. player_id (mem [P 1 100, P 2 500, P 3 300, P 4 200] p)) [0, 1, 2, 3])"
    "distinct (map (\<lambda>p. hand_score (mem [P 1 100, P 2 500, P 3 300, P 4 200] p)) [0, 1, 2, 3])"
    by (simp_all add: mem_def P_def)
  have e: "fst (projr (drain 4 (projr (run (init (mem [P 1 100, P 2 500, P 3 300, P 4 200]))
                                  (map Add [0, 1, 2, 3]))))) = [1, 2, 3, 0]"
    by (simp add: run_eval eval_nat_numeral)
  from round_trip [OF h] h e show ?thesis
    by (intro conjI)
qed

text \<open>
  The claim as stated asks for distinct scores only. It fails for three players with
  scores 100, 500, 300 that share the id 1: the position map keeps one key, every fold
  removes the element that key points to, and three rounds yield the player of score 500
  three times and leave two players in the array.
\<close>

theorem round_trip_counterexample:
  "distinct (map (\<lambda>p. hand_score (mem [P 1 100, P 1 500, P 1 300] p)) [0, 1, 2]) \<and>
   \<not> isl (run (init (mem [P 1 100, P 1 500, P 1 300])) (map Add [0, 1, 2])) \<and>
   \<not> isl (drain 3 (projr (run (init (mem [P 1 100, P 1 500, P 1 300])) (map Add [0, 1, 2])))) \<and>
   fst (projr (drain 3 (projr (run (init (mem [P 1 100, P 1 500, P 1 300]))
     (map Add [0, 1, 2]))))) = [1, 1, 1] \<and>
   heap (snd (projr (drain 3 (projr (run (init (mem [P 1 100, P 1 500, P 1 300]))
     (map Add [0, 1, 2])))))) = [1, 0]"
  by (simp add: run_eval eval_nat_numeral)

section \<open>Termination (C9)\<close>

text \<open>
  C9. Every public operation returns, on every state and for every argument: run over
  the loops as partial functions, where not returning would be the value \<open>None\<close>,
  \<^verbatim>\<open>add_player\<close>, \<^verbatim>\<open>fold_player\<close> and \<^verbatim>\<open>update_hand_strength\<close> each give a result
  (\<^verbatim>\<open>get_winner\<close> has no loop). So do the loop of \<^verbatim>\<open>_sift_up\<close> and the recursion of
  \<^verbatim>\<open>_sift_down\<close>, from every starting index; and whenever \<^verbatim>\<open>_sift_down\<close> calls itself, the
  index it passes is strictly larger than the one it was given and is inside the array.
\<close>

theorem operations_terminate:
  "add_player_run s p = Some (add_player s p) \<and>
   fold_player_run s k = Some (fold_player s k) \<and>
   update_hand_strength_run s k v = Some (update_hand_strength s k v) \<and>
   sift_up_loop s i = Some (sift_up s i) \<and>
   sift_down_rec s i = Some (sift_down s i) \<and>
   (i \<noteq> max_idx s i \<longrightarrow> i < max_idx s i \<and> max_idx s i < length (heap s))"
  using max_idx_bound [of s i]
  by (simp add: add_player_run_returns fold_player_run_returns update_hand_strength_run_returns
      sift_up_loop_returns sift_down_rec_returns)

theorem operations_terminate_witness:
  "0 \<noteq> max_idx (rescored three_state 0 1) 0 \<and>
   0 < max_idx (rescored three_state 0 1) 0 \<and>
   max_idx (rescored three_state 0 1) 0 < length (heap (rescored three_state 0 1)) \<and>
   sift_down_rec (rescored three_state 0 1) 0 = Some (sift_down (rescored three_state 0 1) 0) \<and>
   fold_player_run (rescored three_state 0 1) 2 = Some (fold_player (rescored three_state 0 1) 2)"
proof -
  have h: "0 \<noteq> max_idx (rescored three_state 0 1) 0"
    by (simp add: three_state_def rescored_def run_eval)
  from operations_terminate [of "rescored three_state 0 1" _ 2 _ 0] h show ?thesis
    by simp
qed

section \<open>Adding a player whose id is present (C10)\<close>

text \<open>
  C10. Let the position map be sound (every key points to a slot storing that id, as in
  every reachable state) and let \<open>k\<close> be a present id, its key pointing to slot \<open>j\<close>. A call
  of \<^verbatim>\<open>add_player\<close> with a player \<open>p\<close> of id \<open>k\<close> does not fail. The player is appended and
  sifted up: the heap array gains exactly \<open>p\<close>, and \<open>p\<close> ends in a slot no lower than the
  appended one, at the root or under a parent that does not score less, so that a heap
  stays a heap. The key \<open>k\<close> now points to the slot of \<open>p\<close>; the older element is still
  in the array, in another slot, and no key of the position map points to that slot. A
  following \<^verbatim>\<open>fold_player\<close> of \<open>k\<close> takes out only the newer occurrence: the array is left
  with the elements it had before the add.
\<close>

theorem add_player_present_id:
  assumes ok: "map_ok s" and look: "position_map s k = Some j"
    and pid: "player_id (objs s p) = k"
  shows "\<exists>s' i'. add_player s p = sift_up (appended s p) (length (heap s)) \<and>
           add_player s p = Inr s' \<and>
           mset (heap s') = mset (heap s) + {#p#} \<and>
           position_map s' k = Some i' \<and> i' < length (heap s') \<and> heap s' ! i' = p \<and>
           i' \<le> length (heap s) \<and>
           (i' = 0 \<or> score s' i' \<le> score s' (parent i')) \<and>
           (heap_inv s \<longrightarrow> heap_inv s') \<and>
           (\<exists>j' < length (heap s'). j' \<noteq> i' \<and> heap s' ! j' = heap s ! j \<and>
              (\<forall>k'. position_map s' k' \<noteq> Some j')) \<and>
           (\<exists>s''. fold_player s' k = Inr s'' \<and> mset (heap s'') = mset (heap s))"
proof -
  let ?s0 = "appended s p" and ?n = "length (heap s)"
  obtain s' where a: "add_player s p = Inr s'"
    using add_player_returns by blast
  then have up: "sift_up ?s0 ?n = Inr s'"
    by (simp add: add_player_eq)
  have ms: "mset (heap s') = mset (heap s) + {#p#}"
    using a by (rule add_player_mset)
  have ok': "map_ok s'"
    using a ok by (rule add_player_map_ok)
  have o': "objs s' = objs s"
    using a by (rule add_player_objs)
  have hi: "heap_inv s \<longrightarrow> heap_inv s'"
    using add_player_heap_inv [OF a] by blast
  have at: "pid_at ?s0 ?n = k" "heap ?s0 ! ?n = p"
    by (simp_all add: appended_pid_at pid)
  have "position_map ?s0 (pid_at ?s0 ?n) = Some ?n"
    by (simp add: at pid)
  from sift_up_settles [OF up _ this] at obtain i' where
    i': "i' < length (heap s')" "heap s' ! i' = p" "position_map s' k = Some i'"
    and low: "i' \<le> ?n" "i' = 0 \<or> score s' i' \<le> score s' (parent i')"
    by auto
  from ok look have j: "j < ?n" "pid_at s j = k"
    unfolding map_ok_def by blast+
  then have "heap s ! j \<in> set (heap s)"
    by simp
  with other_slot [of "heap s'" "heap s" i'] ms i' obtain j' where
    j': "j' < length (heap s')" "j' \<noteq> i'" "heap s' ! j' = heap s ! j"
    by auto
  have free: "position_map s' k' \<noteq> Some j'" for k'
  proof
    assume l: "position_map s' k' = Some j'"
    with ok' have "pid_at s' j' = k'"
      unfolding map_ok_def by blast
    with j' j o' have "k' = k"
      by (simp add: pid_at_def)
    with l i' j' show False
      by simp
  qed
  from fold_player_present [OF ok' i'(3)] obtain s'' where
    f: "fold_player s' k = Inr s''" and "mset (heap s') = mset (heap s'') + {#heap s' ! i'#}"
    by blast
  with ms i' have "mset (heap s'') = mset (heap s)"
    by simp
  with a ms i' low hi j' free f show ?thesis
    unfolding add_player_eq [symmetric] by blast
qed

theorem add_player_present_id_witness:
  "map_ok same_id_state \<and> position_map same_id_state 1 = Some 0 \<and>
   player_id (objs same_id_state 0) = 1 \<and> heap_inv same_id_state \<and>
   heap (projr (add_player same_id_state 0)) = [0, 1] \<and>
   position_map (projr (add_player same_id_state 0)) 1 = Some 0 \<and>
   heap (projr (fold_player (projr (add_player same_id_state 0)) 1)) = [1] \<and>
   (\<exists>s' i'. add_player same_id_state 0 =
             sift_up (appended same_id_state 0) (length (heap same_id_state)) \<and>
           add_player same_id_state 0 = Inr s' \<and>
           mset (heap s') = mset (heap same_id_state) + {#0#} \<and>
           position_map s' 1 = Some i' \<and> i' < length (heap s') \<and> heap s' ! i' = 0 \<and>
           i' \<le> length (heap same_id_state) \<and>
           (i' = 0 \<or> score s' i' \<le> score s' (parent i')) \<and>
           (heap_inv same_id_state \<longrightarrow> heap_inv s') \<and>
           (\<exists>j' < length (heap s'). j' \<noteq> i' \<and> heap s' ! j' = heap same_id_state ! 0 \<and>
              (\<forall>k'. position_map s' k' \<noteq> Some j')) \<and>
           (\<exists>s''. fold_player s' 1 = Inr s'' \<and> mset (heap s'') = mset (heap same_id_state)))"
proof -
  have h: "map_ok same_id_state" "position_map same_id_state 1 = Some 0"
    "player_id (objs same_id_state 0) = 1"
    by (simp_all add: same_id_state_def map_ok_def pid_at_def mem_def P_def)
  have hi: "heap_inv same_id_state"
    by (simp add: same_id_state_def heap_inv_def)
  have e: "heap (projr (add_player same_id_state 0)) = [0, 1]"
    "position_map (projr (add_player same_id_state 0)) 1 = Some 0"
    "heap (projr (fold_player (projr (add_player same_id_state 0)) 1)) = [1]"
    by (simp_all add: same_id_state_def run_eval)
  from add_player_present_id [OF h] h hi e show ?thesis
    by (intro conjI)
qed

end
